theory Spec2Isabelle
  imports Complex_Main "HOL-Library.AList" "HOL-Library.Multiset" "HOL-Library.Product_Lexorder"
begin

section \<open>Python floats\<close>

text \<open>
  A Python float is a finite number, an infinity or NaN. A finite float is modelled by the
  real number it denotes; the rounding of an arithmetic result to the nearest double is not
  modelled, the rounding and the overflow of \<^verbatim>\<open>float\<close> on an int read from a response are.
  The comparisons
  are those of IEEE 754: every ordered comparison with NaN is false, and NaN equals nothing.
\<close>

datatype pyfloat = Fin real | PInf | NInf | NaN

fun flt :: "pyfloat \<Rightarrow> pyfloat \<Rightarrow> bool" where
  "flt (Fin x) (Fin y) = (x < y)"
| "flt (Fin x) PInf = True"
| "flt NInf (Fin y) = True"
| "flt NInf PInf = True"
| "flt x y = False"

definition feq :: "pyfloat \<Rightarrow> pyfloat \<Rightarrow> bool" where
  "feq x y = (x \<noteq> NaN \<and> x = y)"

definition fle :: "pyfloat \<Rightarrow> pyfloat \<Rightarrow> bool" where
  "fle x y = (flt x y \<or> feq x y)"

text \<open>
  The builtins on two arguments: \<^verbatim>\<open>max(a, b)\<close> is \<open>b\<close> when \<^verbatim>\<open>b > a\<close> and \<open>a\<close> otherwise,
  \<^verbatim>\<open>min(a, b)\<close> is \<open>b\<close> when \<^verbatim>\<open>b < a\<close> and \<open>a\<close> otherwise. So \<^verbatim>\<open>max(nan, x)\<close> is NaN and
  \<^verbatim>\<open>max(x, nan)\<close> is \<open>x\<close>.
\<close>

definition py_max :: "pyfloat \<Rightarrow> pyfloat \<Rightarrow> pyfloat" where
  "py_max a b = (if flt a b then b else a)"

definition py_min :: "pyfloat \<Rightarrow> pyfloat \<Rightarrow> pyfloat" where
  "py_min a b = (if flt b a then b else a)"

fun fneg :: "pyfloat \<Rightarrow> pyfloat" where
  "fneg (Fin x) = Fin (- x)"
| "fneg PInf = NInf"
| "fneg NInf = PInf"
| "fneg NaN = NaN"

text \<open>Division by a positive finite float.\<close>

fun fdiv :: "pyfloat \<Rightarrow> real \<Rightarrow> pyfloat" where
  "fdiv (Fin x) d = Fin (x / d)"
| "fdiv PInf d = PInf"
| "fdiv NInf d = NInf"
| "fdiv NaN d = NaN"

text \<open>
  \<^verbatim>\<open>float(i)\<close> for an int: exact up to 53 bits, otherwise rounded to 53 bits (half to even),
  and \<^verbatim>\<open>OverflowError\<close> when the rounded value reaches \<open>2 ^ 1024\<close>. \<open>bit_length\<close> is
  \<^verbatim>\<open>int.bit_length\<close>.
\<close>

datatype error = AttributeError | KeyError | RuntimeError | SqliteError | OverflowError

fun bit_length :: "nat \<Rightarrow> nat" where
  "bit_length n = (if n = 0 then 0 else Suc (bit_length (n div 2)))"

declare bit_length.simps [simp del]

definition float_of_int :: "int \<Rightarrow> error + pyfloat" where
  "float_of_int i =
     (let a = nat \<bar>i\<bar>; e = bit_length a - 53
      in if bit_length a \<le> 53 then Inr (Fin (real_of_int i))
         else (let q = a div 2 ^ e; r = a mod 2 ^ e; h = 2 ^ (e - 1);
                   m = (if r < h then q else if h < r then q + 1 else if even q then q else q + 1)
               in if 2 ^ 1024 \<le> m * 2 ^ e then Inl OverflowError
                  else Inr (Fin (real_of_int (sgn i * int (m * 2 ^ e))))))"

section \<open>Values of the recognizer's responses\<close>

text \<open>
  A recognizer response is whatever \<^verbatim>\<open>json.loads\<close> or the recognition library hands
  back: a JSON value. Python's \<^verbatim>\<open>None\<close> and JSON's \<^verbatim>\<open>null\<close> are both \<open>JNull\<close>; a
  \<^verbatim>\<open>dict\<close> is an association list read with \<open>map_of\<close>. A JSON number is a Python int or a
  Python float; \<^verbatim>\<open>json.loads\<close> accepts \<^verbatim>\<open>NaN\<close>, \<^verbatim>\<open>Infinity\<close> and \<^verbatim>\<open>-Infinity\<close>.
\<close>

datatype json =
    JNull
  | JBool bool
  | JInt int
  | JFloat pyfloat
  | JStr string
  | JArr "json list"
  | JObj "(string \<times> json) list"

text \<open>Python truthiness: what \<^verbatim>\<open>if v:\<close> and \<^verbatim>\<open>not v\<close> test.\<close>

fun truthy :: "json \<Rightarrow> bool" where
  "truthy JNull = False"
| "truthy (JBool b) = b"
| "truthy (JInt i) = (i \<noteq> 0)"
| "truthy (JFloat r) = (r \<noteq> Fin 0)"
| "truthy (JStr s) = (s \<noteq> [])"
| "truthy (JArr xs) = (xs \<noteq> [])"
| "truthy (JObj d) = (d \<noteq> [])"

text \<open>\<^verbatim>\<open>d.get(k)\<close>: the value under \<open>k\<close>, or \<^verbatim>\<open>None\<close>.\<close>

definition dict_get :: "(string \<times> json) list \<Rightarrow> string \<Rightarrow> json" where
  "dict_get d k = (case map_of d k of None \<Rightarrow> JNull | Some v \<Rightarrow> v)"

text \<open>\<^verbatim>\<open>track = resp.get("track") if isinstance(resp, dict) else None\<close>\<close>

definition track_of :: "json \<Rightarrow> json" where
  "track_of resp = (case resp of JObj d \<Rightarrow> dict_get d ''track'' | _ \<Rightarrow> JNull)"

section \<open>shazam\_recognizer.py\<close>

text \<open>
  \<^verbatim>\<open>extract_track_id\<close>: the first truthy value among the candidate keys, through Python's
  \<^verbatim>\<open>str\<close>, which is a parameter \<open>str_of\<close> here. A truthy \<^verbatim>\<open>track\<close> that is not a dict has
  no \<^verbatim>\<open>get\<close>: the call raises \<^verbatim>\<open>AttributeError\<close>.
\<close>

fun track_id_loop :: "(json \<Rightarrow> string) \<Rightarrow> (string \<times> json) list \<Rightarrow> string list \<Rightarrow> string option" where
  "track_id_loop str_of track [] = None"
| "track_id_loop str_of track (k # ks) =
     (let v = dict_get track k
      in if truthy v then Some (str_of v) else track_id_loop str_of track ks)"

definition extract_track_id :: "(json \<Rightarrow> string) \<Rightarrow> json \<Rightarrow> error + string option" where
  "extract_track_id str_of resp =
     (let track = track_of resp
      in if \<not> truthy track then Inr None
         else (case track of
                 JObj t \<Rightarrow> Inr (track_id_loop str_of t [''key'', ''id'', ''shazam_id'', ''shazamID''])
               | _ \<Rightarrow> Inl AttributeError))"

text \<open>\<^verbatim>\<open>extract_artist_title\<close>: returns the pair \<open>(artist, title)\<close>.\<close>

definition extract_artist_title :: "json \<Rightarrow> error + (json \<times> json)" where
  "extract_artist_title resp =
     (let track = track_of resp
      in if \<not> truthy track then Inr (JNull, JNull)
         else (case track of
                 JObj t \<Rightarrow>
                   (let title = dict_get t ''title'';
                        artist = (if truthy (dict_get t ''subtitle'') then dict_get t ''subtitle''
                                  else dict_get t ''artist'')
                    in Inr (artist, title))
               | _ \<Rightarrow> Inl AttributeError))"

text \<open>
  \<^verbatim>\<open>isinstance(v, (int, float))\<close> together with \<^verbatim>\<open>float(v)\<close>: \<open>None\<close> when the value is no
  number, else what \<^verbatim>\<open>float\<close> makes of it (a Python \<^verbatim>\<open>bool\<close> is an \<^verbatim>\<open>int\<close>).
\<close>

fun as_number :: "json \<Rightarrow> (error + pyfloat) option" where
  "as_number (JInt i) = Some (float_of_int i)"
| "as_number (JFloat f) = Some (Inr f)"
| "as_number (JBool b) = Some (Inr (Fin (if b then 1 else 0)))"
| "as_number JNull = None"
| "as_number (JStr s) = None"
| "as_number (JArr xs) = None"
| "as_number (JObj d) = None"

text \<open>\<^verbatim>\<open>1.0 < v <= 100.0\<close> for a number; Python compares an int with a float exactly.\<close>

fun in_percent_range :: "json \<Rightarrow> bool" where
  "in_percent_range (JInt i) = (1 < i \<and> i \<le> 100)"
| "in_percent_range (JFloat f) = (flt (Fin 1) f \<and> fle f (Fin 100))"
| "in_percent_range v = False"

fun confidence_loop :: "(string \<times> json) list \<Rightarrow> string list \<Rightarrow> error + pyfloat option" where
  "confidence_loop track [] = Inr None"
| "confidence_loop track (k # ks) =
     (let v = dict_get track k
      in case as_number v of
           None \<Rightarrow> confidence_loop track ks
         | Some (Inl e) \<Rightarrow> Inl e
         | Some (Inr f) \<Rightarrow> Inr (Some (if in_percent_range v then fdiv f 100 else f)))"

definition extract_confidence :: "json \<Rightarrow> error + pyfloat option" where
  "extract_confidence resp =
     (let track = track_of resp
      in if \<not> truthy track then Inr None
         else (case track of
                 JObj t \<Rightarrow> confidence_loop t [''confidence'', ''score'', ''probability'']
               | _ \<Rightarrow> Inl AttributeError))"

text \<open>
  What the recognition library does with one clip: it returns a value or raises.
  \<^verbatim>\<open>recognize_file\<close> turns every exception, and every response that is falsy, not a dict
  or has no \<^verbatim>\<open>"track"\<close> key, into \<^verbatim>\<open>None\<close>.
\<close>

datatype 'a outcome = Raises | Returns 'a

definition recognize_file :: "json outcome \<Rightarrow> json" where
  "recognize_file r =
     (case r of
        Raises \<Rightarrow> JNull
      | Returns resp \<Rightarrow>
          (case resp of
             JObj d \<Rightarrow> (if d = [] \<or> map_of d ''track'' = None then JNull else resp)
           | _ \<Rightarrow> JNull))"

text \<open>The spec's reading of the confidence rule, for comparison with \<open>extract_confidence\<close>:
  the numeric figure a track record carries is the first value that is a number among the
  keys confidence, score and probability.\<close>

definition confidence_figure :: "(string \<times> json) list \<Rightarrow> json option" where
  "confidence_figure track =
     (case filter (\<lambda>v. as_number v \<noteq> None)
             (map (dict_get track) [''confidence'', ''score'', ''probability'']) of
        [] \<Rightarrow> None
      | v # _ \<Rightarrow> Some v)"

definition in_unit_interval :: "pyfloat \<Rightarrow> bool" where
  "in_unit_interval c = (fle (Fin 0) c \<and> fle c (Fin 1))"

definition confidence_in_range :: "error + pyfloat option \<Rightarrow> bool" where
  "confidence_in_range r =
     (case r of Inr (Some c) \<Rightarrow> in_unit_interval c | Inr None \<Rightarrow> True | Inl e \<Rightarrow> False)"

section \<open>chunker.py\<close>

text \<open>
  \<^verbatim>\<open>build_chunks\<close>: \<open>step = max(1, chunk_sec - overlap_sec)\<close>, then the while loop with its
  accumulator \<open>out\<close> and its \<^verbatim>\<open>break\<close>.
\<close>

definition chunk_step :: "int \<Rightarrow> int \<Rightarrow> int" where
  "chunk_step chunk_sec overlap_sec = max 1 (chunk_sec - overlap_sec)"

function build_chunks_loop :: "real \<Rightarrow> int \<Rightarrow> int \<Rightarrow> real \<Rightarrow> (real \<times> real) list \<Rightarrow> (real \<times> real) list" where
  "build_chunks_loop duration chunk_sec overlap_sec t out =
     (if t < duration
      then (let d = min (real_of_int chunk_sec) (max 0 (duration - t))
            in if d \<le> 1 then out
               else build_chunks_loop duration chunk_sec overlap_sec
                      (t + real_of_int (chunk_step chunk_sec overlap_sec)) (out @ [(t, d)]))
      else out)"
  by pat_completeness auto
termination
proof (relation "measure (\<lambda>(duration, chunk_sec, overlap_sec, t, out). nat \<lceil>duration - t\<rceil>)")
  show "wf (measure (\<lambda>(duration, chunk_sec, overlap_sec, t, out). nat \<lceil>duration - t\<rceil>))"
    by simp
next
  fix duration :: real and chunk_sec overlap_sec :: int and t :: real
    and out :: "(real \<times> real) list" and d :: real
  assume lt: "t < duration"
  have s: "1 \<le> real_of_int (chunk_step chunk_sec overlap_sec)"
    by (simp add: chunk_step_def)
  have "\<lceil>duration - (t + real_of_int (chunk_step chunk_sec overlap_sec))\<rceil> \<le> \<lceil>duration - t - 1\<rceil>"
    using s by (intro ceiling_mono) linarith
  also have "\<dots> = \<lceil>duration - t\<rceil> - 1"
    by simp
  finally have a: "\<lceil>duration - (t + real_of_int (chunk_step chunk_sec overlap_sec))\<rceil> < \<lceil>duration - t\<rceil>"
    by linarith
  have b: "0 < \<lceil>duration - t\<rceil>"
    using lt by simp
  show "((duration, chunk_sec, overlap_sec, t + real_of_int (chunk_step chunk_sec overlap_sec), out @ [(t, d)]),
         (duration, chunk_sec, overlap_sec, t, out))
        \<in> measure (\<lambda>(duration, chunk_sec, overlap_sec, t, out). nat \<lceil>duration - t\<rceil>)"
    using a b by simp
qed

declare build_chunks_loop.simps [simp del]

definition build_chunks :: "real \<Rightarrow> int \<Rightarrow> int \<Rightarrow> (real \<times> real) list" where
  "build_chunks duration chunk_sec overlap_sec = build_chunks_loop duration chunk_sec overlap_sec 0 []"

text \<open>The invariant of the loop: the windows emitted so far start before \<open>t\<close>, in
  strictly increasing order, and each is longer than one second and no longer than the chunk.\<close>

definition windows_ok :: "int \<Rightarrow> real \<Rightarrow> (real \<times> real) list \<Rightarrow> bool" where
  "windows_ok c t out = (sorted_wrt (<) (map fst out) \<and> list_all (\<lambda>w. fst w < t \<and> 1 < snd w \<and> snd w \<le> real_of_int c) out)"

section \<open>store.py\<close>

text \<open>
  The chunk key is the string \<^verbatim>\<open>f"{src_hash}:{start:.2f}:{dur:.2f}:{sample_rate}"\<close>. Two such
  strings are equal exactly when the hash, the two numbers as printed with two decimals and
  the sample rate are, so the key is modelled as that quadruple; \<open>fmt2\<close> is the number of
  hundredths \<^verbatim>\<open>.2f\<close> prints (round half to even), for the non-negative starts and lengths
  the planner produces.
\<close>

definition fmt2 :: "real \<Rightarrow> int" where
  "fmt2 x =
     (let y = x * 100; f = \<lfloor>y\<rfloor>
      in if y - real_of_int f < 1 / 2 then f
         else if 1 / 2 < y - real_of_int f then f + 1
         else if even f then f else f + 1)"

type_synonym chunk_key = "string \<times> int \<times> int \<times> int"

definition chunk_key_of :: "string \<Rightarrow> real \<Rightarrow> real \<Rightarrow> int \<Rightarrow> chunk_key" where
  "chunk_key_of src_hash start dur sample_rate = (src_hash, fmt2 start, fmt2 dur, sample_rate)"

text \<open>
  The table \<^verbatim>\<open>chunk_cache\<close>: no row (\<open>None\<close>), a row whose \<^verbatim>\<open>shazam_json\<close> is NULL
  (\<open>Some None\<close>), or a row holding the JSON text of a value (\<open>Some (Some j)\<close>; the text is
  \<^verbatim>\<open>json.dumps\<close> of the value and \<^verbatim>\<open>json.loads\<close> gives the value back). The column
  \<^verbatim>\<open>created_utc\<close> is never read and is left out.
\<close>

type_synonym chunk_cache = "chunk_key \<Rightarrow> json option option"

text \<open>The aggregate of a track, \<^verbatim>\<open>TrackAgg\<close> of pipeline.py.\<close>

record TrackAgg =
  shazam_track_id :: string
  artist :: json
  title :: json
  confidence_max :: pyfloat
  support :: int
  first_seen_sec :: real
  last_seen_sec :: real

text \<open>
  The dict \<^verbatim>\<open>tracks\<close> keeps its keys in insertion order, which the final sort sees: it is
  an association list, and \<open>AList.update\<close> is the assignment \<^verbatim>\<open>tracks[tid] = v\<close> (a present
  key keeps its place, a new key goes last). Mutating the object found by
  \<^verbatim>\<open>tracks.get(tid)\<close> is an update of the entry in place.
\<close>

type_synonym track_table = "(string \<times> TrackAgg) list"

text \<open>
  Everything outside the program that one run depends on: whether SQLite raises on a
  statement for a key, whether ffprobe and ffmpeg succeed, what the recognition library
  does with the clip of a window, Python's \<^verbatim>\<open>str\<close>, and what Python's sort does with a list
  whose keys are not totally ordered (see \<open>report_rows\<close>).
\<close>

record world =
  select_fails :: "chunk_key \<Rightarrow> bool"
  insert_fails :: "chunk_key \<Rightarrow> bool"
  ffprobe :: "real outcome"
  ffmpeg_fails :: "nat \<Rightarrow> real \<Rightarrow> real \<Rightarrow> bool"
  shazam :: "nat \<Rightarrow> real \<Rightarrow> real \<Rightarrow> json outcome"
  py_str :: "json \<Rightarrow> string"
  list_sort :: "track_table \<Rightarrow> track_table"

text \<open>\<^verbatim>\<open>Store.get_chunk\<close>: \<^verbatim>\<open>if not row or not row[0]: return None\<close>, else the decoded value.
  Neither method catches anything: an exception of SQLite leaves the method.\<close>

definition get_chunk :: "world \<Rightarrow> chunk_cache \<Rightarrow> chunk_key \<Rightarrow> error + json" where
  "get_chunk w db key =
     (if select_fails w key then Inl SqliteError
      else (case db key of
              None \<Rightarrow> Inr JNull
            | Some None \<Rightarrow> Inr JNull
            | Some (Some j) \<Rightarrow> Inr j))"

text \<open>\<^verbatim>\<open>Store.put_chunk\<close>: \<^verbatim>\<open>INSERT OR REPLACE\<close> of
  \<^verbatim>\<open>json.dumps(shazam_obj) if shazam_obj else None\<close>.\<close>

definition put_chunk :: "world \<Rightarrow> chunk_cache \<Rightarrow> chunk_key \<Rightarrow> json \<Rightarrow> error + chunk_cache" where
  "put_chunk w db key shazam_obj =
     (if insert_fails w key then Inl SqliteError
      else Inr (db(key \<mapsto> (if truthy shazam_obj then Some shazam_obj else None))))"

section \<open>pipeline.py: the aggregator\<close>

text \<open>Lines 95 to 118 of \<^verbatim>\<open>process_one\<close>: create or update the aggregate, then read it back
  with \<^verbatim>\<open>tracks[tid]\<close> (a \<^verbatim>\<open>KeyError\<close> when absent) and fold the computed confidence in.
  \<^verbatim>\<open>max\<close> and \<^verbatim>\<open>min\<close> are the builtins, with their arguments in the order of the source. The
  support counts the sightings of a track, far below \<open>2 ^ 53\<close>, so its conversion in
  \<^verbatim>\<open>support / 3.0\<close> is exact.\<close>

definition aggregate_match ::
    "track_table \<Rightarrow> real \<Rightarrow> string \<Rightarrow> json \<Rightarrow> json \<Rightarrow> pyfloat option \<Rightarrow> error + track_table" where
  "aggregate_match ts start tid a ti raw_conf =
     (let ts1 =
        (case map_of ts tid of
           None \<Rightarrow>
             AList.update tid
               \<lparr>shazam_track_id = tid, artist = a, title = ti,
                confidence_max = (case raw_conf of Some c \<Rightarrow> c | None \<Rightarrow> Fin 0),
                support = 1, first_seen_sec = start, last_seen_sec = start\<rparr> ts
         | Some agg \<Rightarrow>
             AList.update tid
               (agg\<lparr>support := support agg + 1,
                    first_seen_sec := min (first_seen_sec agg) start,
                    last_seen_sec := max (last_seen_sec agg) start,
                    confidence_max :=
                      (case raw_conf of
                         Some c \<Rightarrow> py_max (confidence_max agg) c
                       | None \<Rightarrow> confidence_max agg)\<rparr>) ts)
      in case map_of ts1 tid of
           None \<Rightarrow> Inl KeyError
         | Some agg2 \<Rightarrow>
             Inr (AList.update tid
                    (agg2\<lparr>confidence_max :=
                       py_max (confidence_max agg2)
                         (py_min (Fin 1) (Fin (real_of_int (support agg2) / 3)))\<rparr>) ts1))"

text \<open>Lines 85 to 93: the early returns and the extraction of a match from a response.\<close>

definition extract_match ::
    "(json \<Rightarrow> string) \<Rightarrow> json \<Rightarrow> error + (string \<times> json \<times> json \<times> pyfloat option) option" where
  "extract_match str_of resp =
     (if \<not> truthy resp then Inr None
      else (case extract_track_id str_of resp of
              Inl e \<Rightarrow> Inl e
            | Inr tid_opt \<Rightarrow>
                (case extract_artist_title resp of
                   Inl e \<Rightarrow> Inl e
                 | Inr (a, ti) \<Rightarrow>
                     (case tid_opt of
                        None \<Rightarrow> Inr None
                      | Some tid \<Rightarrow>
                          if tid \<noteq> [] \<and> truthy a \<and> truthy ti
                          then (case extract_confidence resp of
                                  Inl e \<Rightarrow> Inl e
                                | Inr raw_conf \<Rightarrow> Inr (Some (tid, a, ti, raw_conf)))
                          else Inr None))))"

text \<open>Lines 85 to 118: what \<^verbatim>\<open>process_one\<close> does with the response of the window at \<open>start\<close>.\<close>

definition fold_response :: "(json \<Rightarrow> string) \<Rightarrow> track_table \<Rightarrow> real \<Rightarrow> json \<Rightarrow> error + track_table" where
  "fold_response str_of ts start resp =
     (case extract_match str_of resp of
        Inl e \<Rightarrow> Inl e
      | Inr None \<Rightarrow> Inr ts
      | Inr (Some (tid, a, ti, raw_conf)) \<Rightarrow> aggregate_match ts start tid a ti raw_conf)"

text \<open>The responses of a run, applied to the aggregator in the order they complete.\<close>

fun fold_responses :: "(json \<Rightarrow> string) \<Rightarrow> track_table \<Rightarrow> (real \<times> json) list \<Rightarrow> error + track_table" where
  "fold_responses str_of ts [] = Inr ts"
| "fold_responses str_of ts ((start, resp) # rs) =
     (case fold_response str_of ts start resp of
        Inl e \<Rightarrow> Inl e
      | Inr ts' \<Rightarrow> fold_responses str_of ts' rs)"

text \<open>
  The key of the final sort, \<^verbatim>\<open>(-kv[1].confidence_max, -kv[1].support)\<close>, and \<^verbatim>\<open><\<close> on two
  such tuples: the first components decide unless they are equal (\<^verbatim>\<open>==\<close>), then the
  second do.
\<close>

definition rank_key :: "string \<times> TrackAgg \<Rightarrow> pyfloat \<times> int" where
  "rank_key kv = (fneg (confidence_max (snd kv)), - support (snd kv))"

definition key_lt :: "pyfloat \<times> int \<Rightarrow> pyfloat \<times> int \<Rightarrow> bool" where
  "key_lt x y = (if feq (fst x) (fst y) then snd x < snd y else flt (fst x) (fst y))"

text \<open>The same key in a linear order, for keys without NaN.\<close>

fun float_rank :: "pyfloat \<Rightarrow> int \<times> real" where
  "float_rank NInf = (0, 0)"
| "float_rank (Fin x) = (1, x)"
| "float_rank PInf = (2, 0)"
| "float_rank NaN = (3, 0)"

definition total_key :: "string \<times> TrackAgg \<Rightarrow> (int \<times> real) \<times> int" where
  "total_key kv = (float_rank (fst (rank_key kv)), snd (rank_key kv))"

text \<open>
  \<^verbatim>\<open>sorted(tracks.items(), key=...)\<close>. Python's sort compares with \<^verbatim>\<open><\<close> only and is stable.
  It first looks for a run: a list in which no element is less than the one before it is
  returned as it is. Otherwise, when the keys are totally ordered (no NaN among them), the
  result is the stable sort, which \<open>sort_key\<close> computes. What the merges make of any other
  list is not fixed by the language; it is the parameter \<open>other\<close>.
\<close>

definition report_rows :: "(track_table \<Rightarrow> track_table) \<Rightarrow> track_table \<Rightarrow> track_table" where
  "report_rows other ts =
     (if successively (\<lambda>x y. \<not> key_lt (rank_key y) (rank_key x)) ts then ts
      else if list_all (\<lambda>kv. confidence_max (snd kv) \<noteq> NaN) ts then sort_key total_key ts
      else other ts)"

text \<open>The spec's reading of the aggregator, for comparison with \<open>aggregate_match\<close>; its
  \<^verbatim>\<open>max\<close> and \<^verbatim>\<open>min\<close> are Python's.\<close>

definition spec_first_sight :: "real \<Rightarrow> string \<Rightarrow> json \<Rightarrow> json \<Rightarrow> pyfloat option \<Rightarrow> TrackAgg" where
  "spec_first_sight start tid a ti raw_conf =
     \<lparr>shazam_track_id = tid, artist = a, title = ti,
      confidence_max = (case raw_conf of Some c \<Rightarrow> c | None \<Rightarrow> Fin 0),
      support = 1, first_seen_sec = start, last_seen_sec = start\<rparr>"

definition spec_later_sight :: "TrackAgg \<Rightarrow> real \<Rightarrow> pyfloat option \<Rightarrow> TrackAgg" where
  "spec_later_sight agg start raw_conf =
     agg\<lparr>support := support agg + 1,
         first_seen_sec := min (first_seen_sec agg) start,
         last_seen_sec := max (last_seen_sec agg) start,
         confidence_max :=
           (case raw_conf of Some c \<Rightarrow> py_max (confidence_max agg) c | None \<Rightarrow> confidence_max agg)\<rparr>"

definition spec_derived :: "TrackAgg \<Rightarrow> TrackAgg" where
  "spec_derived agg =
     agg\<lparr>confidence_max :=
           py_max (confidence_max agg) (py_min (Fin 1) (Fin (real_of_int (support agg) / 3)))\<rparr>"

text \<open>The numeric fields of an aggregate, and of every aggregate of a table.\<close>

type_synonym numeric = "int \<times> real \<times> real \<times> pyfloat"

definition numeric_fields :: "TrackAgg \<Rightarrow> numeric" where
  "numeric_fields agg = (support agg, first_seen_sec agg, last_seen_sec agg, confidence_max agg)"

definition numeric_view :: "track_table \<Rightarrow> string \<Rightarrow> numeric option" where
  "numeric_view ts tid = map_option numeric_fields (map_of ts tid)"

text \<open>The keys of a stream in the order of their first appearance.\<close>

fun first_appearances :: "string list \<Rightarrow> string list" where
  "first_appearances [] = []"
| "first_appearances (x # xs) = x # filter (\<lambda>y. y \<noteq> x) (first_appearances xs)"

text \<open>The matches a stream of responses holds, with the starts of their windows, and the
  streams none of whose matches carries a NaN confidence.\<close>

definition matches_of ::
    "(json \<Rightarrow> string) \<Rightarrow> (real \<times> json) list \<Rightarrow> (real \<times> string \<times> json \<times> json \<times> pyfloat option) list" where
  "matches_of str_of rs =
     List.map_filter
       (\<lambda>(start, resp). case extract_match str_of resp of
                            Inr (Some m) \<Rightarrow> Some (start, m)
                          | _ \<Rightarrow> None) rs"

definition nan_free :: "(json \<Rightarrow> string) \<Rightarrow> (real \<times> json) list \<Rightarrow> bool" where
  "nan_free str_of rs =
     list_all (\<lambda>(start, tid, a, ti, raw_conf). raw_conf \<noteq> Some NaN) (matches_of str_of rs)"

text \<open>
  Sample responses for the examples: a track record with a key, a title and an artist, with
  or without a confidence figure. On a Python \<^verbatim>\<open>str\<close> the function \<^verbatim>\<open>str\<close> is the identity,
  which is all \<open>str_of_text\<close> says.
\<close>

definition str_of_text :: "json \<Rightarrow> string" where
  "str_of_text j = (case j of JStr s \<Rightarrow> s | _ \<Rightarrow> [])"

definition sighting :: "string \<Rightarrow> json" where
  "sighting tid =
     JObj [(''track'', JObj [(''key'', JStr tid), (''title'', JStr ''title''), (''subtitle'', JStr ''artist'')])]"

definition sighting_with :: "string \<Rightarrow> pyfloat \<Rightarrow> json" where
  "sighting_with tid c =
     JObj [(''track'', JObj [(''key'', JStr tid), (''title'', JStr ''title''), (''subtitle'', JStr ''artist''),
                             (''confidence'', JFloat c)])]"

text \<open>What one match does to the numeric fields (support, first seen, last seen,
  confidence) of its track, and so to those of the table, whatever its strings are.\<close>

definition numeric_next :: "numeric option \<Rightarrow> real \<Rightarrow> pyfloat option \<Rightarrow> numeric" where
  "numeric_next v start raw_conf =
     (case v of
        None \<Rightarrow>
          (1, start, start,
           py_max (case raw_conf of Some c \<Rightarrow> c | None \<Rightarrow> Fin 0) (py_min (Fin 1) (Fin (1 / 3))))
      | Some (n, f, l, c) \<Rightarrow>
          (n + 1, min f start, max l start,
           py_max (case raw_conf of Some r \<Rightarrow> py_max c r | None \<Rightarrow> c)
             (py_min (Fin 1) (Fin (real_of_int (n + 1) / 3)))))"

definition numeric_step ::
    "real \<Rightarrow> string \<Rightarrow> pyfloat option \<Rightarrow> (string \<Rightarrow> numeric option) \<Rightarrow> (string \<Rightarrow> numeric option)" where
  "numeric_step start tid raw_conf m = m(tid \<mapsto> numeric_next (m tid) start raw_conf)"

text \<open>The order \<^verbatim>\<open>(-confidence_max, -support)\<close> puts one aggregate before another:
  confidence descending, then support descending.\<close>

definition ranks_before :: "TrackAgg \<Rightarrow> TrackAgg \<Rightarrow> bool" where
  "ranks_before x y =
     (flt (confidence_max y) (confidence_max x) \<or>
      (confidence_max x = confidence_max y \<and> support y \<le> support x))"

definition add_key :: "string \<Rightarrow> string list \<Rightarrow> string list" where
  "add_key k ks = (if k \<in> set ks then ks else ks @ [k])"

text \<open>An aggregate with a given confidence and support, for the ranking examples.\<close>

definition sample_agg :: "string \<Rightarrow> pyfloat \<Rightarrow> int \<Rightarrow> string \<times> TrackAgg" where
  "sample_agg tid c n =
     (tid, \<lparr>shazam_track_id = tid, artist = JStr ''artist'', title = JStr ''title'',
            confidence_max = c, support = n, first_seen_sec = 0, last_seen_sec = 0\<rparr>)"

section \<open>pipeline.py: one window, one run\<close>

text \<open>
  What the tasks of a run share: the cache table, the dict \<^verbatim>\<open>tracks\<close>, and (for stating
  how often the recognizer is called) the keys of the chunks submitted to it so far.
\<close>

record run_state =
  cache :: chunk_cache
  tracks :: track_table
  oracle_calls :: "chunk_key list"

datatype lookup = Hit json | Miss

text \<open>Lines 75 to 78: the cache lookup and, when \<^verbatim>\<open>resp is None\<close>, the extraction of the
  clip; \<^verbatim>\<open>extract_chunk_wav\<close> raises \<^verbatim>\<open>RuntimeError\<close> when ffmpeg fails.\<close>

definition lookup_chunk :: "world \<Rightarrow> chunk_cache \<Rightarrow> chunk_key \<Rightarrow> nat \<Rightarrow> real \<Rightarrow> real \<Rightarrow> error + lookup" where
  "lookup_chunk w db key idx start dur =
     (case get_chunk w db key of
        Inl e \<Rightarrow> Inl e
      | Inr resp \<Rightarrow>
          if resp = JNull
          then (if ffmpeg_fails w idx start dur then Inl RuntimeError else Inr Miss)
          else Inr (Hit resp))"

text \<open>Lines 85 to 118 on the shared state.\<close>

definition finish_chunk :: "world \<Rightarrow> run_state \<Rightarrow> real \<Rightarrow> json \<Rightarrow> error + run_state" where
  "finish_chunk w st start resp =
     (case fold_response (py_str w) (tracks st) start resp of
        Inl e \<Rightarrow> Inl e
      | Inr ts \<Rightarrow> Inr (st\<lparr>tracks := ts\<rparr>))"

text \<open>
  \<^verbatim>\<open>process_one\<close>, run from its first line to its last with no other task in between: the
  lookup, on a miss the call of the recognizer under the semaphore and \<^verbatim>\<open>put_chunk\<close>, then
  the aggregation. No line of it catches an exception.
\<close>

definition process_one :: "world \<Rightarrow> string \<Rightarrow> int \<Rightarrow> run_state \<Rightarrow> nat \<times> real \<times> real \<Rightarrow> error + run_state" where
  "process_one w src_hash sample_rate st task =
     (case task of
        (idx, start, dur) \<Rightarrow>
          (let key = chunk_key_of src_hash start dur sample_rate
           in case lookup_chunk w (cache st) key idx start dur of
                Inl e \<Rightarrow> Inl e
              | Inr (Hit resp) \<Rightarrow> finish_chunk w st start resp
              | Inr Miss \<Rightarrow>
                  (let resp = recognize_file (shazam w idx start dur);
                       st1 = st\<lparr>oracle_calls := oracle_calls st @ [key]\<rparr>
                   in case put_chunk w (cache st1) key resp of
                        Inl e \<Rightarrow> Inl e
                      | Inr db \<Rightarrow> finish_chunk w (st1\<lparr>cache := db\<rparr>) start resp)))"

text \<open>
  \<^verbatim>\<open>asyncio.gather\<close> over one batch, in the schedule in which every task runs from its first
  line to its last before the next one starts. The event loop itself starts each task of the
  batch (lookup, extraction) before a call of the recognizer returns, so the order in which
  the results are aggregated, and which exception leaves \<^verbatim>\<open>gather\<close> when several tasks raise,
  can differ from this schedule; all interleavings are the events of the next section, and
  what is proved about runs below does not depend on the schedule. \<^verbatim>\<open>gather\<close> is called
  without \<^verbatim>\<open>return_exceptions\<close>, so the first exception of a task leaves it.
\<close>

fun run_tasks :: "world \<Rightarrow> string \<Rightarrow> int \<Rightarrow> run_state \<Rightarrow> (nat \<times> real \<times> real) list \<Rightarrow> error + run_state" where
  "run_tasks w src_hash sample_rate st [] = Inr st"
| "run_tasks w src_hash sample_rate st (task # rest) =
     (case process_one w src_hash sample_rate st task of
        Inl e \<Rightarrow> Inl e
      | Inr st' \<Rightarrow> run_tasks w src_hash sample_rate st' rest)"

text \<open>\<^verbatim>\<open>for b in range(0, len(coros), batch): await asyncio.gather(*coros[b:b+batch])\<close> with
  \<^verbatim>\<open>batch = 40\<close>.\<close>

function run_batches :: "world \<Rightarrow> string \<Rightarrow> int \<Rightarrow> run_state \<Rightarrow> (nat \<times> real \<times> real) list \<Rightarrow> error + run_state" where
  "run_batches w src_hash sample_rate st coros =
     (if coros = [] then Inr st
      else (case run_tasks w src_hash sample_rate st (take 40 coros) of
              Inl e \<Rightarrow> Inl e
            | Inr st' \<Rightarrow> run_batches w src_hash sample_rate st' (drop 40 coros)))"
  by pat_completeness auto
termination
  by (relation "measure (\<lambda>(w, src_hash, sample_rate, st, coros). length coros)") auto

declare run_batches.simps [simp del]

text \<open>
  \<^verbatim>\<open>run_pipeline\<close> up to the rows of the report: the duration, the windows, the batches, the
  sort. \<open>src_hash\<close> is what \<^verbatim>\<open>sha1_of_file\<close> returns for the audio file. The result also gives
  the cache the run leaves behind and the calls it made. The rows are the sorted items of
  \<^verbatim>\<open>tracks\<close>; the rounding of their fields and the files written from them are outside the
  model. With \<^verbatim>\<open>max_parallel\<close> of at least one the semaphore delays calls and changes nothing
  else, so it does not show here; it is modelled with the events of the next section.
\<close>

record run_result =
  report :: track_table
  final_cache :: chunk_cache
  calls :: "chunk_key list"

definition run_pipeline :: "world \<Rightarrow> string \<Rightarrow> chunk_cache \<Rightarrow> int \<Rightarrow> int \<Rightarrow> int \<Rightarrow> error + run_result" where
  "run_pipeline w src_hash db chunk_seconds overlap_seconds sample_rate =
     (case ffprobe w of
        Raises \<Rightarrow> Inl RuntimeError
      | Returns duration \<Rightarrow>
          (let chunks = build_chunks duration chunk_seconds overlap_seconds
           in case run_batches w src_hash sample_rate
                     \<lparr>cache = db, tracks = [], oracle_calls = []\<rparr> (List.enumerate 0 chunks) of
                Inl e \<Rightarrow> Inl e
              | Inr st \<Rightarrow>
                  Inr \<lparr>report = report_rows (list_sort w) (tracks st), final_cache = cache st,
                       calls = oracle_calls st\<rparr>))"

text \<open>Two runs over the same source and parameters, the second on the cache the first left.\<close>

definition run_twice :: "world \<Rightarrow> string \<Rightarrow> chunk_cache \<Rightarrow> int \<Rightarrow> int \<Rightarrow> int \<Rightarrow> error + run_result" where
  "run_twice w src_hash db chunk_seconds overlap_seconds sample_rate =
     (case run_pipeline w src_hash db chunk_seconds overlap_seconds sample_rate of
        Inl e \<Rightarrow> Inl e
      | Inr r1 \<Rightarrow> run_pipeline w src_hash (final_cache r1) chunk_seconds overlap_seconds sample_rate)"

text \<open>
  Sample worlds: a source of ten seconds (or of seventy) on which nothing fails and the
  recognizer finds no track, and variations of it in which one thing fails.
\<close>

definition quiet_world :: world where
  "quiet_world =
     \<lparr>select_fails = (\<lambda>key. False), insert_fails = (\<lambda>key. False), ffprobe = Returns 10,
      ffmpeg_fails = (\<lambda>idx start dur. False),
      shazam = (\<lambda>idx start dur. Returns (JObj [(''matches'', JArr [])])),
      py_str = str_of_text, list_sort = (\<lambda>rows. rows)\<rparr>"

definition long_world :: world where
  "long_world = quiet_world\<lparr>ffprobe := Returns 70\<rparr>"

definition ffmpeg_fails_once :: world where
  "ffmpeg_fails_once = long_world\<lparr>ffmpeg_fails := (\<lambda>idx start dur. idx = 1)\<rparr>"

definition sqlite_select_fails :: world where
  "sqlite_select_fails = quiet_world\<lparr>select_fails := (\<lambda>key. True)\<rparr>"

definition sqlite_insert_fails :: world where
  "sqlite_insert_fails = quiet_world\<lparr>insert_fails := (\<lambda>key. True)\<rparr>"

definition completes :: "error + run_result \<Rightarrow> bool" where
  "completes r = (case r of Inl e \<Rightarrow> False | Inr res \<Rightarrow> True)"

section \<open>pipeline.py: the tasks of a run and the semaphore\<close>

text \<open>
  Each task of \<^verbatim>\<open>process_one\<close> suspends in one place only, inside \<^verbatim>\<open>async with sem\<close>: while it
  waits for a permit of \<^verbatim>\<open>asyncio.Semaphore(max_parallel)\<close> and while the call of the
  recognizer is outstanding. So a task is not yet started (\<open>Pending\<close>), past its cache lookup
  and the extraction of its clip and waiting for a permit (\<open>Waiting\<close>), holding a permit with
  its call outstanding (\<open>Calling\<close>), or ended: returned, raised, or cancelled after another
  task raised.
\<close>

datatype phase = Pending | Waiting | Calling | Finished | Failed error | Cancelled

record sched_state =
  phases :: "phase list"
  permits :: nat
  shared :: run_state

text \<open>
  What the event loop can do next: run a task from its start to its first suspension
  (lines 73 to 80), give a waiting task a permit and issue its call (lines 80 and 81), resume
  a task whose call has returned and run it to its end (lines 81 to 118, the permit released
  on leaving the \<^verbatim>\<open>async with\<close> block), or cancel a task once some task has raised.
\<close>

datatype event = Start nat | Acquire nat | Complete nat | Cancel nat

text \<open>The batch of a task is awaited only after every task of the batches before it has
  returned.\<close>

definition batch_open :: "phase list \<Rightarrow> nat \<Rightarrow> bool" where
  "batch_open ps i = list_all (\<lambda>p. p = Finished) (take (40 * (i div 40)) ps)"

fun is_failed :: "phase \<Rightarrow> bool" where
  "is_failed (Failed e) = True"
| "is_failed p = False"

definition set_phase :: "nat \<Rightarrow> phase \<Rightarrow> sched_state \<Rightarrow> sched_state" where
  "set_phase i p s = s\<lparr>phases := (phases s)[i := p]\<rparr>"

definition start_task ::
    "world \<Rightarrow> string \<Rightarrow> int \<Rightarrow> nat \<Rightarrow> nat \<times> real \<times> real \<Rightarrow> sched_state \<Rightarrow> sched_state" where
  "start_task w src_hash sample_rate i task s =
     (case task of
        (idx, start, dur) \<Rightarrow>
          (case lookup_chunk w (cache (shared s)) (chunk_key_of src_hash start dur sample_rate) idx start dur of
             Inl e \<Rightarrow> set_phase i (Failed e) s
           | Inr Miss \<Rightarrow> set_phase i Waiting s
           | Inr (Hit resp) \<Rightarrow>
               (case finish_chunk w (shared s) start resp of
                  Inl e \<Rightarrow> set_phase i (Failed e) s
                | Inr st' \<Rightarrow> set_phase i Finished (s\<lparr>shared := st'\<rparr>))))"

definition acquire_task ::
    "string \<Rightarrow> int \<Rightarrow> nat \<Rightarrow> nat \<times> real \<times> real \<Rightarrow> sched_state \<Rightarrow> sched_state" where
  "acquire_task src_hash sample_rate i task s =
     (case task of
        (idx, start, dur) \<Rightarrow>
          set_phase i Calling
            (s\<lparr>permits := permits s - 1,
               shared := (shared s)\<lparr>oracle_calls :=
                 oracle_calls (shared s) @ [chunk_key_of src_hash start dur sample_rate]\<rparr>\<rparr>))"

definition complete_task ::
    "world \<Rightarrow> string \<Rightarrow> int \<Rightarrow> nat \<Rightarrow> nat \<times> real \<times> real \<Rightarrow> sched_state \<Rightarrow> sched_state" where
  "complete_task w src_hash sample_rate i task s =
     (case task of
        (idx, start, dur) \<Rightarrow>
          (let resp = recognize_file (shazam w idx start dur);
               s1 = s\<lparr>permits := permits s + 1\<rparr>
           in case put_chunk w (cache (shared s)) (chunk_key_of src_hash start dur sample_rate) resp of
                Inl e \<Rightarrow> set_phase i (Failed e) s1
              | Inr db \<Rightarrow>
                  (case finish_chunk w ((shared s)\<lparr>cache := db\<rparr>) start resp of
                     Inl e \<Rightarrow> set_phase i (Failed e) (s1\<lparr>shared := (shared s)\<lparr>cache := db\<rparr>\<rparr>)
                   | Inr st' \<Rightarrow> set_phase i Finished (s1\<lparr>shared := st'\<rparr>))))"

definition cancel_task :: "nat \<Rightarrow> sched_state \<Rightarrow> sched_state option" where
  "cancel_task i s =
     (case phases s ! i of
        Pending \<Rightarrow> Some (set_phase i Cancelled s)
      | Waiting \<Rightarrow> Some (set_phase i Cancelled s)
      | Calling \<Rightarrow> Some (set_phase i Cancelled (s\<lparr>permits := permits s + 1\<rparr>))
      | _ \<Rightarrow> None)"

text \<open>One event on the tasks \<open>coros\<close> of a run; \<open>None\<close> when the event cannot happen in the
  state.\<close>

fun task_event ::
    "world \<Rightarrow> string \<Rightarrow> int \<Rightarrow> (nat \<times> real \<times> real) list \<Rightarrow> event \<Rightarrow> sched_state \<Rightarrow> sched_state option" where
  "task_event w src_hash sample_rate coros (Start i) s =
     (if i < length coros \<and> i < length (phases s) \<and> phases s ! i = Pending \<and> batch_open (phases s) i
      then Some (start_task w src_hash sample_rate i (coros ! i) s) else None)"
| "task_event w src_hash sample_rate coros (Acquire i) s =
     (if i < length coros \<and> i < length (phases s) \<and> phases s ! i = Waiting \<and> 0 < permits s
      then Some (acquire_task src_hash sample_rate i (coros ! i) s) else None)"
| "task_event w src_hash sample_rate coros (Complete i) s =
     (if i < length coros \<and> i < length (phases s) \<and> phases s ! i = Calling
      then Some (complete_task w src_hash sample_rate i (coros ! i) s) else None)"
| "task_event w src_hash sample_rate coros (Cancel i) s =
     (if i < length coros \<and> i < length (phases s) \<and> list_ex is_failed (phases s)
      then cancel_task i s else None)"

fun run_events ::
    "world \<Rightarrow> string \<Rightarrow> int \<Rightarrow> (nat \<times> real \<times> real) list \<Rightarrow> event list \<Rightarrow> sched_state \<Rightarrow> sched_state option" where
  "run_events w src_hash sample_rate coros [] s = Some s"
| "run_events w src_hash sample_rate coros (ev # evs) s =
     (case task_event w src_hash sample_rate coros ev s of
        None \<Rightarrow> None
      | Some s' \<Rightarrow> run_events w src_hash sample_rate coros evs s')"

text \<open>The state in which \<^verbatim>\<open>run_pipeline\<close> reaches its first \<^verbatim>\<open>gather\<close>:
  \<^verbatim>\<open>sem = asyncio.Semaphore(max_parallel)\<close>, no task started.\<close>

definition initial_sched :: "nat \<Rightarrow> chunk_cache \<Rightarrow> nat \<Rightarrow> sched_state" where
  "initial_sched max_parallel db n =
     \<lparr>phases = replicate n Pending, permits = max_parallel,
      shared = \<lparr>cache = db, tracks = [], oracle_calls = []\<rparr>\<rparr>"

text \<open>The number of calls of the recognizer that are outstanding.\<close>

definition calling :: "phase list \<Rightarrow> nat" where
  "calling ps = length (filter (\<lambda>p. p = Calling) ps)"

text \<open>Every permit that is taken is held by a task whose call is outstanding.\<close>

definition balanced :: "nat \<Rightarrow> sched_state \<Rightarrow> bool" where
  "balanced limit s = (permits s + calling (phases s) = limit)"

section \<open>The window planner\<close>

lemma windows_ok_mono: "windows_ok c t out \<Longrightarrow> t \<le> t' \<Longrightarrow> windows_ok c t' out"
  by (auto simp: windows_ok_def list_all_iff)

lemma windows_ok_snoc:
  "windows_ok c t out \<Longrightarrow> 1 < d \<Longrightarrow> d \<le> real_of_int c \<Longrightarrow> t < t' \<Longrightarrow> windows_ok c t' (out @ [(t, d)])"
  by (auto simp: windows_ok_def list_all_iff sorted_wrt_append)

lemma build_chunks_loop_ok:
  "windows_ok c t out \<Longrightarrow> \<exists>t'. windows_ok c t' (build_chunks_loop duration c ov t out)"
proof (induction duration c ov t out rule: build_chunks_loop.induct)
  case (1 duration c ov t out)
  define d where "d = min (real_of_int c) (max 0 (duration - t))"
  have step: "t < t + real_of_int (chunk_step c ov)"
    by (simp add: chunk_step_def)
  show ?case
  proof (cases "t < duration \<and> \<not> d \<le> 1")
    case True
    then have tl: "t < duration" and dl: "\<not> d \<le> 1"
      by auto
    have eq: "build_chunks_loop duration c ov t out =
       build_chunks_loop duration c ov (t + real_of_int (chunk_step c ov)) (out @ [(t, d)])"
      using tl dl by (subst build_chunks_loop.simps) (simp add: Let_def d_def)
    have "d \<le> real_of_int c"
      by (simp add: d_def)
    then have ok: "windows_ok c (t + real_of_int (chunk_step c ov)) (out @ [(t, d)])"
      using dl "1.prems" step by (intro windows_ok_snoc) auto
    show ?thesis
      unfolding eq by (rule "1.IH"[OF tl d_def dl ok])
  next
    case False
    have "build_chunks_loop duration c ov t out = out"
      using False unfolding d_def by (subst build_chunks_loop.simps) (auto simp: Let_def)
    then show ?thesis using "1.prems" by auto
  qed
qed

lemma build_chunks_short: "duration \<le> 1 \<Longrightarrow> build_chunks duration c ov = []"
  unfolding build_chunks_def by (subst build_chunks_loop.simps) (auto simp: Let_def)

text \<open>
  Claim C7. For every duration of at most one second \<open>build_chunks\<close> returns no window;
  for every duration, chunk length and overlap (floats read as real numbers), the starts of
  the emitted windows increase strictly, every length is at most the chunk length, and no
  emitted window is shorter than one second.
\<close>

theorem build_chunks_windows:
  "(duration \<le> 1 \<longrightarrow> build_chunks duration chunk_sec overlap_sec = []) \<and>
   sorted_wrt (<) (map fst (build_chunks duration chunk_sec overlap_sec)) \<and>
   (\<forall>(start, len) \<in> set (build_chunks duration chunk_sec overlap_sec).
       len \<le> real_of_int chunk_sec \<and> \<not> len < 1)"
proof -
  have "windows_ok chunk_sec 0 []" by (simp add: windows_ok_def)
  then obtain t' where "windows_ok chunk_sec t' (build_chunks duration chunk_sec overlap_sec)"
    unfolding build_chunks_def using build_chunks_loop_ok by blast
  then show ?thesis
    using build_chunks_short[of duration chunk_sec overlap_sec]
    by (auto simp: windows_ok_def list_all_iff)
qed

theorem build_chunks_windows_witness:
  "build_chunks (1/2) 30 10 = [] \<and>
   build_chunks 70 30 10 = [(0, 30), (20, 30), (40, 30), (60, 10)] \<and>
   sorted_wrt (<) (map fst (build_chunks 70 30 10)) \<and>
   list_all (\<lambda>w. snd w \<le> 30 \<and> 1 \<le> snd w) (build_chunks 70 30 10)"
proof -
  have e: "build_chunks 70 30 10 = [(0, 30), (20, 30), (40, 30), (60, 10)]"
    by (simp add: build_chunks_def build_chunks_loop.simps chunk_step_def)
  have h: "(1/2::real) \<le> 1" by simp
  show ?thesis
    using build_chunks_windows[of "1/2" 30 10] build_chunks_windows[of 70 30 10] h
    by (simp add: e)
qed

section \<open>Confidence extraction\<close>

lemma bit_length_0: "bit_length 0 = 0"
  by (simp add: bit_length.simps)

lemma bit_length_pos: "0 < n \<Longrightarrow> bit_length n = Suc (bit_length (n div 2))"
  by (subst bit_length.simps) simp

lemma bit_length_upper: "n < 2 ^ bit_length n"
proof (induction n rule: bit_length.induct)
  case (1 n)
  show ?case
  proof (cases "n = 0")
    case True
    then show ?thesis by (simp add: bit_length_0)
  next
    case False
    then have "n div 2 < 2 ^ bit_length (n div 2)"
      using "1.IH" by simp
    then have "n < 2 * 2 ^ bit_length (n div 2)"
      by linarith
    then show ?thesis
      using False by (simp add: bit_length_pos)
  qed
qed

lemma bit_length_lower: "0 < n \<Longrightarrow> 2 ^ (bit_length n - 1) \<le> n"
proof (induction n rule: bit_length.induct)
  case (1 n)
  show ?case
  proof (cases "n div 2 = 0")
    case True
    then have "bit_length n = 1"
      using "1.prems" by (simp add: bit_length_pos bit_length_0)
    then show ?thesis
      using "1.prems" by simp
  next
    case False
    then have p: "0 < n div 2"
      by simp
    have "2 ^ (bit_length (n div 2) - 1) \<le> n div 2"
      using "1.IH" "1.prems" p by simp
    moreover have "0 < bit_length (n div 2)"
      using p by (simp add: bit_length_pos)
    ultimately have "2 ^ bit_length (n div 2) \<le> 2 * (n div 2)"
      by (cases "bit_length (n div 2)") simp_all
    then have "2 ^ bit_length (n div 2) \<le> n"
      by linarith
    then show ?thesis
      using "1.prems" by (simp add: bit_length_pos)
  qed
qed

lemma bit_length_small: "n < 2 ^ k \<Longrightarrow> bit_length n \<le> k"
proof (rule ccontr)
  assume n: "n < 2 ^ k" and "\<not> bit_length n \<le> k"
  then have k: "k \<le> bit_length n - 1" and pos: "0 < n"
    by (auto simp: bit_length_0 intro: Nat.gr0I)
  have "(2::nat) ^ k \<le> 2 ^ (bit_length n - 1)"
    using k by (rule power_increasing) simp
  then show False
    using bit_length_lower[OF pos] n by linarith
qed

lemma bit_length_large: "2 ^ k \<le> n \<Longrightarrow> k < bit_length n"
proof (rule ccontr)
  assume n: "2 ^ k \<le> n" and "\<not> k < bit_length n"
  then have "(2::nat) ^ bit_length n \<le> 2 ^ k"
    by (intro power_increasing) simp_all
  then show False
    using bit_length_upper[of n] n by linarith
qed

lemma float_of_int_exact: "\<bar>i\<bar> < 2 ^ 53 \<Longrightarrow> float_of_int i = Inr (Fin (real_of_int i))"
proof -
  assume "\<bar>i\<bar> < 2 ^ 53"
  then have "nat \<bar>i\<bar> < 2 ^ 53"
    by (simp add: nat_less_iff)
  then have "bit_length (nat \<bar>i\<bar>) \<le> 53"
    by (rule bit_length_small)
  then show ?thesis
    by (simp add: float_of_int_def Let_def)
qed

lemma float_of_int_overflow: "2 ^ 1024 \<le> \<bar>i\<bar> \<Longrightarrow> float_of_int i = Inl OverflowError"
proof -
  assume big: "2 ^ 1024 \<le> \<bar>i\<bar>"
  define a where "a = nat \<bar>i\<bar>"
  define e where "e = bit_length a - 53"
  have a: "2 ^ 1024 \<le> a"
    using big by (simp add: a_def le_nat_iff)
  then have l: "1024 < bit_length a"
    by (rule bit_length_large)
  then have e: "972 \<le> e" "e + 53 = bit_length a" "e \<le> bit_length a - 1"
    by (simp_all add: e_def)
  have pos: "0 < a"
    using a by (simp add: less_le_trans[of 0 "2 ^ 1024"])
  have "52 + e = bit_length a - 1"
    using e(2) by linarith
  then have "(2::nat) ^ 52 * 2 ^ e = 2 ^ (bit_length a - 1)"
    by (simp only: power_add[symmetric])
  then have "2 ^ 52 * 2 ^ e \<le> a"
    using bit_length_lower[OF pos] by simp
  then have q: "2 ^ 52 \<le> a div 2 ^ e"
    by (simp add: less_eq_div_iff_mult_less_eq)
  have "(2::nat) ^ 1024 = 2 ^ (52 + 972)"
    by simp
  also have "\<dots> \<le> 2 ^ (52 + e)"
    using e(1) by (intro power_increasing) simp_all
  also have "\<dots> = 2 ^ 52 * 2 ^ e"
    by (simp only: power_add)
  also have "\<dots> \<le> (a div 2 ^ e) * 2 ^ e"
    using q by (intro mult_right_mono) simp_all
  finally have base: "2 ^ 1024 \<le> (a div 2 ^ e) * 2 ^ e" .
  have up: "(a div 2 ^ e) * 2 ^ e \<le> (a div 2 ^ e + 1) * 2 ^ e"
    by simp
  show ?thesis
    using l base up
    unfolding float_of_int_def Let_def a_def[symmetric] e_def[symmetric]
    by (auto simp: not_le)
qed


lemma confidence_loop_figure:
  "confidence_loop t ks =
     (case filter (\<lambda>v. as_number v \<noteq> None) (map (dict_get t) ks) of
        [] \<Rightarrow> Inr None
      | v # _ \<Rightarrow>
          (case as_number v of
             Some (Inl e) \<Rightarrow> Inl e
           | Some (Inr f) \<Rightarrow> Inr (Some (if in_percent_range v then fdiv f 100 else f))
           | None \<Rightarrow> Inr None))"
  by (induction ks) (auto simp: Let_def split: option.splits sum.splits)

lemma extract_confidence_dict:
  "track_of resp = JObj t \<Longrightarrow> t \<noteq> [] \<Longrightarrow>
   extract_confidence resp =
     (case confidence_figure t of
        None \<Rightarrow> Inr None
      | Some v \<Rightarrow>
          (case as_number v of
             Some (Inl e) \<Rightarrow> Inl e
           | Some (Inr f) \<Rightarrow> Inr (Some (if in_percent_range v then fdiv f 100 else f))
           | None \<Rightarrow> Inr None))"
  by (simp add: extract_confidence_def confidence_loop_figure confidence_figure_def
      split: list.splits)

lemma extract_confidence_no_track: "\<not> truthy (track_of resp) \<Longrightarrow> extract_confidence resp = Inr None"
  by (simp add: extract_confidence_def)

lemma extract_confidence_no_dict:
  "truthy (track_of resp) \<Longrightarrow> \<forall>t. track_of resp \<noteq> JObj t \<Longrightarrow> extract_confidence resp = Inl AttributeError"
  by (cases "track_of resp") (simp_all add: extract_confidence_def)

lemma unit_interval_fin: "in_unit_interval (Fin y) = (0 \<le> y \<and> y \<le> 1)"
  by (auto simp: in_unit_interval_def fle_def feq_def)

lemma percent_range_fin: "in_percent_range (JFloat (Fin x)) = (1 < x \<and> x \<le> 100)"
  by (auto simp: fle_def feq_def)

lemma figure_float:
  assumes "track_of resp = JObj t" "t \<noteq> []" "confidence_figure t = Some (JFloat (Fin x))"
  shows "extract_confidence resp = Inr (Some (Fin (if 1 < x \<and> x \<le> 100 then x / 100 else x)))"
    and "confidence_in_range (extract_confidence resp) = (0 \<le> x \<and> x \<le> 100)"
proof -
  show e: "extract_confidence resp = Inr (Some (Fin (if 1 < x \<and> x \<le> 100 then x / 100 else x)))"
    unfolding extract_confidence_dict[OF assms(1,2)] assms(3)
    by (simp add: percent_range_fin del: in_percent_range.simps)
  show "confidence_in_range (extract_confidence resp) = (0 \<le> x \<and> x \<le> 100)"
    unfolding e by (auto simp: confidence_in_range_def unit_interval_fin)
qed

lemma figure_not_finite:
  assumes "track_of resp = JObj t" "t \<noteq> []" "confidence_figure t = Some (JFloat f)"
    "f = PInf \<or> f = NInf \<or> f = NaN"
  shows "extract_confidence resp = Inr (Some f) \<and> \<not> confidence_in_range (extract_confidence resp)"
  unfolding extract_confidence_dict[OF assms(1,2)] assms(3)
  using assms(4)
  by (auto simp: fle_def feq_def confidence_in_range_def in_unit_interval_def)

lemma figure_int:
  assumes "track_of resp = JObj t" "t \<noteq> []" "confidence_figure t = Some (JInt i)" "\<bar>i\<bar> < 2 ^ 53"
  shows "extract_confidence resp =
           Inr (Some (Fin (if 1 < i \<and> i \<le> 100 then real_of_int i / 100 else real_of_int i)))"
    and "confidence_in_range (extract_confidence resp) = (0 \<le> i \<and> i \<le> 100)"
proof -
  show e: "extract_confidence resp =
           Inr (Some (Fin (if 1 < i \<and> i \<le> 100 then real_of_int i / 100 else real_of_int i)))"
    unfolding extract_confidence_dict[OF assms(1,2)] assms(3)
    by (simp add: float_of_int_exact[OF assms(4)])
  have "(0 \<le> real_of_int i \<and> real_of_int i \<le> 1) = (0 \<le> i \<and> i \<le> 1)"
    by linarith
  then show "confidence_in_range (extract_confidence resp) = (0 \<le> i \<and> i \<le> 100)"
    unfolding e by (auto simp: confidence_in_range_def unit_interval_fin)
qed

lemma figure_big_int:
  assumes "track_of resp = JObj t" "t \<noteq> []" "confidence_figure t = Some (JInt i)" "2 ^ 53 \<le> \<bar>i\<bar>"
  shows "extract_confidence resp = map_sum id Some (float_of_int i)"
proof -
  have "\<not> (1 < i \<and> i \<le> 100)"
    using assms(4) by auto
  then show ?thesis
    unfolding extract_confidence_dict[OF assms(1,2)] assms(3)
    by (cases "float_of_int i") auto
qed

lemma figure_huge_int:
  assumes "track_of resp = JObj t" "t \<noteq> []" "confidence_figure t = Some (JInt i)" "2 ^ 1024 \<le> \<bar>i\<bar>"
  shows "extract_confidence resp = Inl OverflowError"
  unfolding extract_confidence_dict[OF assms(1,2)] assms(3)
  by (simp add: float_of_int_overflow[OF assms(4)])

lemma figure_bool:
  assumes "track_of resp = JObj t" "t \<noteq> []" "confidence_figure t = Some (JBool b)"
  shows "extract_confidence resp = Inr (Some (Fin (if b then 1 else 0)))"
  unfolding extract_confidence_dict[OF assms(1,2)] assms(3)
  by simp

lemma figure_none:
  assumes "track_of resp = JObj t" "t \<noteq> []" "confidence_figure t = None"
  shows "extract_confidence resp = Inr None"
  unfolding extract_confidence_dict[OF assms(1,2)] assms(3)
  by simp

text \<open>
  Claim C9 (amended). A response whose track record carries a numeric confidence figure
  \<open>v\<close> (the first value that is a number among the keys confidence, score, probability):
  for a finite float, or an int below \<open>2 ^ 53\<close> in magnitude, the extracted confidence is
  \<open>v / 100\<close> when \<open>1 < v \<le> 100\<close> and \<open>v\<close> otherwise, and it lies between 0 and 1 exactly when
  \<open>0 \<le> v \<le> 100\<close>; an infinite or NaN float is returned as it is, outside the interval; a
  larger int is returned as \<^verbatim>\<open>float(v)\<close> rounds it, and \<^verbatim>\<open>OverflowError\<close> is raised from
  \<open>2 ^ 1024\<close> on. A response without a track, or whose track record has no numeric figure,
  yields no confidence, not zero; a track that is truthy and not a dict raises
  \<^verbatim>\<open>AttributeError\<close>.
\<close>

theorem extract_confidence_normalizes:
  "(\<not> truthy (track_of resp) \<longrightarrow> extract_confidence resp = Inr None) \<and>
   (truthy (track_of resp) \<and> (\<forall>t. track_of resp \<noteq> JObj t) \<longrightarrow>
      extract_confidence resp = Inl AttributeError) \<and>
   (track_of resp = JObj t \<and> t \<noteq> [] \<longrightarrow>
      (confidence_figure t = None \<longrightarrow> extract_confidence resp = Inr None) \<and>
      (\<forall>x. confidence_figure t = Some (JFloat (Fin x)) \<longrightarrow>
           extract_confidence resp = Inr (Some (Fin (if 1 < x \<and> x \<le> 100 then x / 100 else x))) \<and>
           confidence_in_range (extract_confidence resp) = (0 \<le> x \<and> x \<le> 100)) \<and>
      (\<forall>f. confidence_figure t = Some (JFloat f) \<and> (f = PInf \<or> f = NInf \<or> f = NaN) \<longrightarrow>
           extract_confidence resp = Inr (Some f) \<and>
           \<not> confidence_in_range (extract_confidence resp)) \<and>
      (\<forall>i. confidence_figure t = Some (JInt i) \<and> \<bar>i\<bar> < 2 ^ 53 \<longrightarrow>
           extract_confidence resp =
             Inr (Some (Fin (if 1 < i \<and> i \<le> 100 then real_of_int i / 100 else real_of_int i))) \<and>
           confidence_in_range (extract_confidence resp) = (0 \<le> i \<and> i \<le> 100)) \<and>
      (\<forall>i. confidence_figure t = Some (JInt i) \<and> 2 ^ 53 \<le> \<bar>i\<bar> \<longrightarrow>
           extract_confidence resp = map_sum id Some (float_of_int i)) \<and>
      (\<forall>i. confidence_figure t = Some (JInt i) \<and> 2 ^ 1024 \<le> \<bar>i\<bar> \<longrightarrow>
           extract_confidence resp = Inl OverflowError) \<and>
      (\<forall>b. confidence_figure t = Some (JBool b) \<longrightarrow>
           extract_confidence resp = Inr (Some (Fin (if b then 1 else 0)))))"
  using extract_confidence_no_track[of resp] extract_confidence_no_dict[of resp]
    figure_none[of resp t] figure_float[of resp t] figure_not_finite[of resp t]
    figure_int[of resp t] figure_big_int[of resp t] figure_huge_int[of resp t]
    figure_bool[of resp t]
  by blast


theorem extract_confidence_normalizes_witness:
  "extract_confidence (JObj [(''track'', JObj [(''key'', JStr ''T1''), (''score'', JInt 80)])]) =
     Inr (Some (Fin (4 / 5))) \<and>
   confidence_in_range
     (extract_confidence (JObj [(''track'', JObj [(''key'', JStr ''T1''), (''score'', JInt 80)])])) \<and>
   extract_confidence (JObj [(''track'', JObj [(''key'', JStr ''T1'')])]) = Inr None \<and>
   extract_confidence (JObj [(''matches'', JArr [])]) = Inr None \<and>
   extract_confidence (JObj [(''track'', JStr ''T1'')]) = Inl AttributeError \<and>
   extract_confidence (JObj [(''track'', JObj [(''confidence'', JInt (10 ^ 400))])]) = Inl OverflowError"
proof -
  let ?t1 = "[(''key'', JStr ''T1''), (''score'', JInt 80)]"
  let ?t2 = "[(''key'', JStr ''T1'')]"
  let ?t3 = "[(''confidence'', JInt (10 ^ 400))]"
  have f1: "confidence_figure ?t1 = Some (JInt 80)"
    by (simp add: confidence_figure_def dict_get_def)
  have f2: "confidence_figure ?t2 = None"
    by (simp add: confidence_figure_def dict_get_def)
  have f3: "confidence_figure ?t3 = Some (JInt (10 ^ 400))"
    by (simp add: confidence_figure_def dict_get_def)
  have big: "(2::int) ^ 1024 \<le> \<bar>10 ^ 400\<bar>"
    by simp
  have a: "extract_confidence (JObj [(''track'', JObj ?t1)]) = Inr (Some (Fin (4 / 5)))"
    "confidence_in_range (extract_confidence (JObj [(''track'', JObj ?t1)]))"
    using extract_confidence_normalizes[of "JObj [(''track'', JObj ?t1)]" ?t1] f1
    by (auto simp: track_of_def dict_get_def)
  have b: "extract_confidence (JObj [(''track'', JObj ?t2)]) = Inr None"
    using extract_confidence_normalizes[of "JObj [(''track'', JObj ?t2)]" ?t2] f2
    by (simp add: track_of_def dict_get_def)
  have c: "extract_confidence (JObj [(''matches'', JArr [])]) = Inr None"
    using extract_confidence_normalizes[of "JObj [(''matches'', JArr [])]" "[]"]
    by (simp add: track_of_def dict_get_def)
  have d: "extract_confidence (JObj [(''track'', JStr ''T1'')]) = Inl AttributeError"
    using extract_confidence_normalizes[of "JObj [(''track'', JStr ''T1'')]" "[]"]
    by (simp add: track_of_def dict_get_def)
  have tr: "track_of (JObj [(''track'', JObj ?t3)]) = JObj ?t3 \<and> ?t3 \<noteq> []"
    by (simp add: track_of_def dict_get_def)
  have e: "extract_confidence (JObj [(''track'', JObj ?t3)]) = Inl OverflowError"
    using extract_confidence_normalizes[of "JObj [(''track'', JObj ?t3)]" ?t3] tr f3 big
    by blast
  show ?thesis
    using a b c d e by simp
qed

text \<open>The claim as first stated, that the extracted value always lies between 0 and 1,
  fails for the figure 150, which is returned unchanged.\<close>

theorem extract_confidence_out_of_range:
  "\<not> confidence_in_range
        (extract_confidence (JObj [(''track'', JObj [(''key'', JStr ''T1''), (''confidence'', JInt 150)])]))"
  by (simp add: extract_confidence_def track_of_def dict_get_def confidence_in_range_def
      unit_interval_fin float_of_int_exact)

section \<open>The aggregator\<close>

lemma py_max_fin: "py_max (Fin a) (Fin b) = Fin (max a b)"
  by (simp add: py_max_def max_def)

lemma py_min_fin: "py_min (Fin a) (Fin b) = Fin (min a b)"
  by (auto simp: py_min_def min_def)

lemma aggregate_match_update:
  "aggregate_match ts start tid a ti raw =
     Inr (AList.update tid
            (spec_derived (case map_of ts tid of
                             None \<Rightarrow> spec_first_sight start tid a ti raw
                           | Some agg \<Rightarrow> spec_later_sight agg start raw)) ts)"
  by (cases "map_of ts tid")
     (simp_all add: aggregate_match_def update_conv' spec_derived_def spec_first_sight_def
        spec_later_sight_def)

lemma extract_match_sighting:
  "extract_match str_of_text (sighting tid) =
     Inr (if tid = [] then None else Some (tid, JStr ''artist'', JStr ''title'', None))"
  by (simp add: sighting_def extract_match_def extract_track_id_def extract_artist_title_def
      extract_confidence_def track_of_def dict_get_def str_of_text_def)

lemma extract_match_sighting_with:
  "extract_match str_of_text (sighting_with tid c) =
     Inr (if tid = [] then None
          else Some (tid, JStr ''artist'', JStr ''title'',
                     Some (if in_percent_range (JFloat c) then fdiv c 100 else c)))"
  by (simp add: sighting_with_def extract_match_def extract_track_id_def extract_artist_title_def
      extract_confidence_def track_of_def dict_get_def str_of_text_def
      del: in_percent_range.simps)




subsection \<open>Order independence of the numeric fields\<close>

lemma numeric_view_update:
  "numeric_view (AList.update tid agg ts) = (numeric_view ts)(tid \<mapsto> numeric_fields agg)"
  by (rule ext) (simp add: numeric_view_def update_conv')

lemma numeric_view_aggregate:
  "aggregate_match ts start tid a ti raw = Inr ts' \<Longrightarrow>
   numeric_view ts' = numeric_step start tid raw (numeric_view ts)"
  unfolding aggregate_match_update
  by (cases "map_of ts tid")
     (auto simp: numeric_view_update numeric_step_def numeric_next_def numeric_view_def
        numeric_fields_def spec_derived_def spec_first_sight_def spec_later_sight_def
        split: option.splits)

lemma py_max_commute: "x \<noteq> NaN \<Longrightarrow> y \<noteq> NaN \<Longrightarrow> py_max x y = py_max y x"
  by (cases x; cases y) (auto simp: py_max_def)

lemma py_max_right_commute:
  "x \<noteq> NaN \<Longrightarrow> y \<noteq> NaN \<Longrightarrow> py_max (py_max c x) y = py_max (py_max c y) x"
  by (cases c; cases x; cases y) (auto simp: py_max_def)

lemma py_max_swap:
  "x \<noteq> NaN \<Longrightarrow> y \<noteq> NaN \<Longrightarrow>
   py_max (py_max (py_max c y) (Fin a)) x = py_max (py_max (py_max c x) (Fin a)) y"
proof -
  assume n: "x \<noteq> NaN" "y \<noteq> NaN"
  have "py_max (py_max (py_max c y) (Fin a)) x = py_max (py_max (py_max c y) x) (Fin a)"
    using n by (intro py_max_right_commute) simp_all
  also have "\<dots> = py_max (py_max (py_max c x) y) (Fin a)"
    using n by (simp add: py_max_right_commute[of y x c])
  also have "\<dots> = py_max (py_max (py_max c x) (Fin a)) y"
    using n by (intro py_max_right_commute) simp_all
  finally show ?thesis .
qed

lemma py_max_swap_first:
  "x \<noteq> NaN \<Longrightarrow> y \<noteq> NaN \<Longrightarrow>
   py_max (py_max y (Fin a)) x = py_max (py_max x (Fin a)) y"
proof -
  assume n: "x \<noteq> NaN" "y \<noteq> NaN"
  have "py_max (py_max y (Fin a)) x = py_max (py_max y x) (Fin a)"
    using n by (intro py_max_right_commute) simp_all
  also have "\<dots> = py_max (py_max x y) (Fin a)"
    using n by (simp add: py_max_commute)
  also have "\<dots> = py_max (py_max x (Fin a)) y"
    using n by (intro py_max_right_commute) simp_all
  finally show ?thesis .
qed

lemma py_max_late:
  "x \<noteq> NaN \<Longrightarrow> py_max (py_max c (Fin a)) x = py_max (py_max c x) (Fin a)"
  by (intro py_max_right_commute) simp_all

lemma py_max_late_first: "x \<noteq> NaN \<Longrightarrow> py_max (Fin a) x = py_max x (Fin a)"
  by (intro py_max_commute) simp_all

lemma numeric_next_commute:
  assumes "r1 \<noteq> Some NaN" "r2 \<noteq> Some NaN"
  shows "numeric_next (Some (numeric_next v s2 r2)) s1 r1 = numeric_next (Some (numeric_next v s1 r1)) s2 r2"
proof (cases v)
  case None
  show ?thesis
  proof (cases r1; cases r2)
    fix x y
    assume r: "r1 = Some x" "r2 = Some y"
    then have n: "x \<noteq> NaN" "y \<noteq> NaN"
      using assms by auto
    show ?thesis
      unfolding None r numeric_next_def
      by (simp add: py_min_fin py_max_swap_first[OF n] min.commute max.commute)
  next
    fix x
    assume r: "r1 = Some x" "r2 = None"
    then have n: "x \<noteq> NaN"
      using assms by auto
    show ?thesis
      unfolding None r numeric_next_def
      by (simp add: py_min_fin py_max_fin py_max_late_first[OF n] min.commute max.commute)
  next
    fix y
    assume r: "r1 = None" "r2 = Some y"
    then have n: "y \<noteq> NaN"
      using assms by auto
    show ?thesis
      unfolding None r numeric_next_def
      by (simp add: py_min_fin py_max_fin py_max_late_first[OF n] min.commute max.commute)
  next
    assume r: "r1 = None" "r2 = None"
    show ?thesis
      unfolding None r numeric_next_def by (simp add: min.commute max.commute)
  qed
next
  case (Some q)
  obtain n f l c where q: "q = (n, f, l, c)"
    by (cases q)
  note ac = min.assoc min.commute min.left_commute max.assoc max.commute max.left_commute
  show ?thesis
  proof (cases r1; cases r2)
    fix x y
    assume r: "r1 = Some x" "r2 = Some y"
    then have n: "x \<noteq> NaN" "y \<noteq> NaN"
      using assms by auto
    show ?thesis
      unfolding Some q r numeric_next_def
      by (simp add: py_min_fin py_max_swap[OF n] ac)
  next
    fix x
    assume r: "r1 = Some x" "r2 = None"
    then have n: "x \<noteq> NaN"
      using assms by auto
    show ?thesis
      unfolding Some q r numeric_next_def
      by (simp add: py_min_fin py_max_late[OF n] ac)
  next
    fix y
    assume r: "r1 = None" "r2 = Some y"
    then have n: "y \<noteq> NaN"
      using assms by auto
    show ?thesis
      unfolding Some q r numeric_next_def
      by (simp add: py_min_fin py_max_late[OF n] ac)
  next
    assume r: "r1 = None" "r2 = None"
    show ?thesis
      unfolding Some q r numeric_next_def by (simp add: ac)
  qed
qed

lemma numeric_step_commute:
  assumes "r1 \<noteq> Some NaN" "r2 \<noteq> Some NaN"
  shows "numeric_step s1 t1 r1 (numeric_step s2 t2 r2 m) = numeric_step s2 t2 r2 (numeric_step s1 t1 r1 m)"
proof (cases "t1 = t2")
  case False
  then show ?thesis
    by (auto simp: numeric_step_def fun_upd_twist)
next
  case True
  show ?thesis
    unfolding True numeric_step_def
    by (simp add: numeric_next_commute[OF assms, of "m t2" s2 s1])
qed


lemma fold_response_cases:
  "fold_response str_of ts start resp =
     (case extract_match str_of resp of
        Inl e \<Rightarrow> Inl e
      | Inr None \<Rightarrow> Inr ts
      | Inr (Some (tid, a, ti, raw)) \<Rightarrow>
          Inr (AList.update tid
                 (spec_derived (case map_of ts tid of
                                  None \<Rightarrow> spec_first_sight start tid a ti raw
                                | Some agg \<Rightarrow> spec_later_sight agg start raw)) ts))"
  by (auto simp: fold_response_def aggregate_match_update split: sum.splits option.splits)

lemma fold_responses_error:
  "fold_responses str_of ts rs = Inl e \<Longrightarrow> list_ex (\<lambda>x. isl (extract_match str_of (snd x))) rs"
proof (induction rs arbitrary: ts)
  case Nil
  then show ?case by simp
next
  case (Cons x rs)
  obtain start resp where x: "x = (start, resp)"
    by (cases x)
  show ?case
  proof (cases "fold_response str_of ts start resp")
    case (Inl e')
    then show ?thesis
      unfolding x by (auto simp: fold_response_cases split: sum.splits option.splits)
  next
    case (Inr ts')
    then show ?thesis
      using Cons.prems Cons.IH[of ts'] unfolding x by auto
  qed
qed

lemma fold_responses_ok:
  "fold_responses str_of ts rs = Inr ts' \<Longrightarrow>
   \<not> list_ex (\<lambda>x. isl (extract_match str_of (snd x))) rs \<and>
   numeric_view ts' =
     fold (\<lambda>(start, tid, a, ti, raw). numeric_step start tid raw) (matches_of str_of rs) (numeric_view ts)"
proof (induction rs arbitrary: ts)
  case Nil
  then show ?case by (simp add: matches_of_def map_filter_simps)
next
  case (Cons x rs)
  obtain start resp where x: "x = (start, resp)"
    by (cases x)
  show ?case
  proof (cases "fold_response str_of ts start resp")
    case (Inl e')
    then show ?thesis
      using Cons.prems unfolding x by simp
  next
    case (Inr ts1)
    then have rest: "fold_responses str_of ts1 rs = Inr ts'"
      using Cons.prems unfolding x by simp
    note ih = Cons.IH[OF rest]
    show ?thesis
    proof (cases "extract_match str_of resp")
      case (Inl e)
      then show ?thesis using Inr by (simp add: fold_response_def)
    next
      case m: (Inr mo)
      show ?thesis
      proof (cases mo)
        case None
        then have "ts1 = ts"
          using Inr m by (simp add: fold_response_def)
        then show ?thesis
          using ih m None unfolding x by (simp add: matches_of_def map_filter_simps)
      next
        case (Some q)
        obtain tid a ti raw where q: "q = (tid, a, ti, raw)"
          by (cases q)
        have "aggregate_match ts start tid a ti raw = Inr ts1"
          using Inr m Some q by (simp add: fold_response_def)
        then have "numeric_view ts1 = numeric_step start tid raw (numeric_view ts)"
          by (rule numeric_view_aggregate)
        then show ?thesis
          using ih m Some q unfolding x by (simp add: matches_of_def map_filter_simps)
      qed
    qed
  qed
qed

lemma mset_matches_of:
  "mset rs = mset rs' \<Longrightarrow> mset (matches_of str_of rs) = mset (matches_of str_of rs')"
proof -
  have g: "mset (List.map_filter f xs) = image_mset (the \<circ> f) (filter_mset (\<lambda>x. f x \<noteq> None) (mset xs))"
    for f :: "real \<times> json \<Rightarrow> (real \<times> string \<times> json \<times> json \<times> pyfloat option) option" and xs
    unfolding map_filter_def by (simp only: mset_map mset_filter)
  assume "mset rs = mset rs'"
  then show ?thesis
    unfolding matches_of_def g by simp
qed

lemma numeric_fold_perm:
  assumes "mset ms = mset ms'"
    and "list_all (\<lambda>(start, tid, a, ti, raw). raw \<noteq> Some NaN) ms"
  shows "fold (\<lambda>(start, tid, a, ti, raw). numeric_step start tid raw) ms =
         fold (\<lambda>(start, tid, a, ti, raw). numeric_step start tid raw) ms'"
proof (rule fold_multiset_equiv)
  show "mset ms = mset ms'"
    by (rule assms(1))
next
  fix x y
  assume "x \<in> set ms" "y \<in> set ms"
  then have "(case x of (start, tid, a, ti, raw) \<Rightarrow> raw \<noteq> Some NaN)"
    "(case y of (start, tid, a, ti, raw) \<Rightarrow> raw \<noteq> Some NaN)"
    using assms(2) by (auto simp: list_all_iff)
  then show "(case x of (start, tid, a, ti, raw) \<Rightarrow> numeric_step start tid raw) \<circ>
             (case y of (start, tid, a, ti, raw) \<Rightarrow> numeric_step start tid raw) =
             (case y of (start, tid, a, ti, raw) \<Rightarrow> numeric_step start tid raw) \<circ>
             (case x of (start, tid, a, ti, raw) \<Rightarrow> numeric_step start tid raw)"
    by (cases x; cases y) (auto simp: fun_eq_iff numeric_step_commute)
qed

lemma list_ex_perm: "mset rs = mset rs' \<Longrightarrow> list_ex P rs = list_ex P rs'"
  by (auto simp: list_ex_iff dest: mset_eq_setD)

text \<open>
  Claim C10 (amended). For a fixed multiset of per-chunk recognition results none of which
  carries a NaN confidence, the numeric fields of every track's final aggregate (support,
  first seen, last seen, maximal confidence) do not depend on the order in which the results
  are applied to the aggregator, from any table; and a run that stops with an exception in
  one order stops with one in every order.
\<close>

theorem numeric_fields_order_independent:
  "mset rs = mset rs' \<Longrightarrow> nan_free str_of rs \<Longrightarrow>
   map_sum (\<lambda>e. ()) numeric_view (fold_responses str_of ts rs) =
   map_sum (\<lambda>e. ()) numeric_view (fold_responses str_of ts rs')"
proof -
  assume p: "mset rs = mset rs'" and nf: "nan_free str_of rs"
  let ?bad = "\<lambda>rs. list_ex (\<lambda>x. isl (extract_match str_of (snd x))) rs"
  have bad: "?bad rs = ?bad rs'"
    using p by (rule list_ex_perm)
  have perm: "fold (\<lambda>(start, tid, a, ti, raw). numeric_step start tid raw) (matches_of str_of rs) =
         fold (\<lambda>(start, tid, a, ti, raw). numeric_step start tid raw) (matches_of str_of rs')"
    using mset_matches_of[OF p] nf unfolding nan_free_def by (rule numeric_fold_perm)
  show ?thesis
  proof (cases "fold_responses str_of ts rs")
    case (Inl e)
    then have b: "?bad rs"
      by (rule fold_responses_error)
    show ?thesis
    proof (cases "fold_responses str_of ts rs'")
      case l: (Inl e')
      then show ?thesis using Inl by simp
    next
      case (Inr t')
      then show ?thesis using fold_responses_ok[OF Inr] b bad by simp
    qed
  next
    case (Inr t)
    note ok = fold_responses_ok[OF Inr]
    show ?thesis
    proof (cases "fold_responses str_of ts rs'")
      case (Inl e')
      then show ?thesis using fold_responses_error[OF Inl] ok bad by simp
    next
      case r: (Inr t')
      have "numeric_view t = numeric_view t'"
        using ok fold_responses_ok[OF r] perm by simp
      then show ?thesis using Inr r by simp
    qed
  qed
qed

lemma matches_of_Cons:
  "matches_of str_of ((start, resp) # rs) =
     (case extract_match str_of resp of
        Inr (Some m) \<Rightarrow> (start, m) # matches_of str_of rs
      | _ \<Rightarrow> matches_of str_of rs)"
  by (simp add: matches_of_def map_filter_simps split: sum.splits option.splits)

lemma matches_of_Nil: "matches_of str_of [] = []"
  by (simp add: matches_of_def map_filter_simps)

lemma percent_half: "\<not> in_percent_range (JFloat (Fin (1 / 2)))" "\<not> in_percent_range (JFloat (Fin (9 / 10)))"
  "\<not> in_percent_range (JFloat NaN)"
  by (simp_all add: fle_def feq_def)

theorem numeric_fields_order_independent_witness:
  "mset [(0, sighting ''T1''), (20, sighting_with ''T1'' (Fin (1 / 2)))] =
     mset [(20, sighting_with ''T1'' (Fin (1 / 2))), (0, sighting ''T1'')] \<and>
   map_sum (\<lambda>e. ()) numeric_view
     (fold_responses str_of_text [] [(0, sighting ''T1''), (20, sighting_with ''T1'' (Fin (1 / 2)))]) =
   map_sum (\<lambda>e. ()) numeric_view
     (fold_responses str_of_text [] [(20, sighting_with ''T1'' (Fin (1 / 2))), (0, sighting ''T1'')]) \<and>
   map_sum id (\<lambda>ts. numeric_view ts ''T1'')
     (fold_responses str_of_text [] [(20, sighting_with ''T1'' (Fin (1 / 2))), (0, sighting ''T1'')]) =
   Inr (Some (2, 0, 20, Fin (2 / 3)))"
proof -
  have p: "mset [(0::real, sighting ''T1''), (20, sighting_with ''T1'' (Fin (1 / 2)))] =
     mset [(20, sighting_with ''T1'' (Fin (1 / 2))), (0, sighting ''T1'')]"
    by simp
  have nf: "nan_free str_of_text [(0, sighting ''T1''), (20, sighting_with ''T1'' (Fin (1 / 2)))]"
    by (simp add: nan_free_def matches_of_Cons matches_of_Nil extract_match_sighting
        extract_match_sighting_with percent_half del: in_percent_range.simps)
  have v: "map_sum id (\<lambda>ts. numeric_view ts ''T1'')
     (fold_responses str_of_text [] [(20, sighting_with ''T1'' (Fin (1 / 2))), (0, sighting ''T1'')]) =
   Inr (Some (2, 0, 20, Fin (2 / 3)))"
    by (simp add: fold_response_cases extract_match_sighting extract_match_sighting_with
        numeric_view_def numeric_fields_def update_conv' spec_derived_def spec_first_sight_def
        spec_later_sight_def percent_half py_max_fin py_min_fin del: in_percent_range.simps)
  show ?thesis
    using numeric_fields_order_independent[OF p nf, of "[]"] p v by simp
qed

text \<open>Claim C10 as first stated fails: \<^verbatim>\<open>max(nan, x)\<close> is NaN and \<^verbatim>\<open>max(x, nan)\<close> is \<open>x\<close>, so
  two results for one track, one with the confidence NaN and one with 0.9, leave the maximal
  confidence NaN in one order and 0.9 in the other.\<close>

theorem nan_confidence_depends_on_order:
  "mset [(0, sighting_with ''T1'' NaN), (20, sighting_with ''T1'' (Fin (9 / 10)))] =
     mset [(20, sighting_with ''T1'' (Fin (9 / 10))), (0, sighting_with ''T1'' NaN)] \<and>
   map_sum id (\<lambda>ts. numeric_view ts ''T1'')
     (fold_responses str_of_text [] [(0, sighting_with ''T1'' NaN), (20, sighting_with ''T1'' (Fin (9 / 10)))]) =
   Inr (Some (2, 0, 20, NaN)) \<and>
   map_sum id (\<lambda>ts. numeric_view ts ''T1'')
     (fold_responses str_of_text [] [(20, sighting_with ''T1'' (Fin (9 / 10))), (0, sighting_with ''T1'' NaN)]) =
   Inr (Some (2, 0, 20, Fin (9 / 10)))"
  by (simp add: fold_response_cases extract_match_sighting_with
      numeric_view_def numeric_fields_def update_conv' spec_derived_def spec_first_sight_def
      spec_later_sight_def percent_half py_max_def py_min_def del: in_percent_range.simps)

subsection \<open>The ranking of the report\<close>

lemma float_rank_inj: "float_rank a = float_rank b \<longleftrightarrow> a = b"
  by (cases a; cases b) auto

lemma float_rank_less: "a \<noteq> NaN \<Longrightarrow> b \<noteq> NaN \<Longrightarrow> flt a b \<longleftrightarrow> float_rank a < float_rank b"
  by (cases a; cases b) (auto simp: less_prod_def)

lemma fneg_nan: "fneg a = NaN \<longleftrightarrow> a = NaN"
  by (cases a) auto

lemma fneg_inj: "fneg a = fneg b \<longleftrightarrow> a = b"
  by (cases a; cases b) auto

lemma flt_fneg: "flt (fneg a) (fneg b) \<longleftrightarrow> flt b a"
  by (cases a; cases b) auto

lemma lex_less:
  fixes a c :: "'a::linorder" and b d :: "'b::linorder"
  shows "(a, b) < (c, d) \<longleftrightarrow> (if a = c then b < d else a < c)"
  by (auto simp: less_prod_def)

lemma lex_le:
  fixes a c :: "'a::linorder" and b d :: "'b::linorder"
  shows "(a, b) \<le> (c, d) \<longleftrightarrow> a < c \<or> (a = c \<and> b \<le> d)"
  by (auto simp: less_eq_prod_def)

lemma key_lt_total:
  assumes "confidence_max (snd x) \<noteq> NaN" "confidence_max (snd y) \<noteq> NaN"
  shows "key_lt (rank_key x) (rank_key y) \<longleftrightarrow> total_key x < total_key y"
proof -
  have n: "fneg (confidence_max (snd x)) \<noteq> NaN" "fneg (confidence_max (snd y)) \<noteq> NaN"
    using assms by (simp_all add: fneg_nan)
  show ?thesis
    unfolding key_lt_def total_key_def rank_key_def fst_conv snd_conv lex_less
    using n by (simp add: feq_def float_rank_less[OF n] float_rank_inj)
qed

lemma total_key_le:
  assumes "confidence_max (snd x) \<noteq> NaN" "confidence_max (snd y) \<noteq> NaN"
  shows "total_key x \<le> total_key y \<longleftrightarrow> ranks_before (snd x) (snd y)"
proof -
  have n: "fneg (confidence_max (snd x)) \<noteq> NaN" "fneg (confidence_max (snd y)) \<noteq> NaN"
    using assms by (simp_all add: fneg_nan)
  have l: "float_rank (fneg (confidence_max (snd x))) < float_rank (fneg (confidence_max (snd y)))
          \<longleftrightarrow> flt (confidence_max (snd y)) (confidence_max (snd x))"
    using float_rank_less[OF n] by (simp add: flt_fneg)
  show ?thesis
    unfolding total_key_def rank_key_def fst_conv snd_conv lex_le ranks_before_def l
    by (simp add: float_rank_inj fneg_inj)
qed

lemma report_rows_total:
  assumes "list_all (\<lambda>kv. confidence_max (snd kv) \<noteq> NaN) ts"
  shows "report_rows other ts = sort_key total_key ts"
proof (cases "successively (\<lambda>x y. \<not> key_lt (rank_key y) (rank_key x)) ts")
  case True
  have "successively (\<lambda>x y. total_key x \<le> total_key y) ts"
  proof (rule successively_mono[OF True])
    fix x y
    assume "x \<in> set ts" "y \<in> set ts" "\<not> key_lt (rank_key y) (rank_key x)"
    then show "total_key x \<le> total_key y"
      using assms key_lt_total[of y x] by (auto simp: list_all_iff)
  qed
  moreover have "transp (\<lambda>x y. total_key x \<le> total_key y)"
    by (auto simp: transp_def)
  ultimately have "sorted_wrt (\<lambda>x y. total_key x \<le> total_key y) ts"
    by (simp add: successively_conv_sorted_wrt)
  then have "sorted (map total_key ts)"
    by (simp add: sorted_wrt_map)
  then have "sort_key total_key ts = ts"
    by (rule sort_key_id_if_sorted)
  then show ?thesis
    using True by (simp add: report_rows_def)
next
  case False
  then show ?thesis
    using assms by (simp add: report_rows_def)
qed

lemma report_rows_sorted:
  assumes "list_all (\<lambda>kv. confidence_max (snd kv) \<noteq> NaN) ts"
  shows "sorted_wrt ranks_before (map snd (report_rows other ts))"
proof -
  have "sorted (map total_key (sort_key total_key ts))"
    by (rule sorted_sort_key)
  then have "sorted_wrt (\<lambda>x y. total_key x \<le> total_key y) (sort_key total_key ts)"
    by (simp add: sorted_wrt_map)
  then have "sorted_wrt (\<lambda>x y. ranks_before (snd x) (snd y)) (sort_key total_key ts)"
  proof (rule sorted_wrt_mono_rel[rotated])
    fix x y
    assume "x \<in> set (sort_key total_key ts)" "y \<in> set (sort_key total_key ts)"
      "total_key x \<le> total_key y"
    then show "ranks_before (snd x) (snd y)"
      using assms total_key_le[of x y] by (auto simp: list_all_iff)
  qed
  then show ?thesis
    by (simp add: report_rows_total[OF assms] sorted_wrt_map)
qed

lemma report_rows_stable:
  assumes "list_all (\<lambda>kv. confidence_max (snd kv) \<noteq> NaN) ts"
  shows "filter (\<lambda>kv. confidence_max (snd kv) = c \<and> support (snd kv) = n) (report_rows other ts) =
         filter (\<lambda>kv. confidence_max (snd kv) = c \<and> support (snd kv) = n) ts"
proof -
  have k: "(confidence_max (snd kv) = c \<and> support (snd kv) = n) =
           (total_key kv = (float_rank (fneg c), - n))" for kv
    by (auto simp: total_key_def rank_key_def float_rank_inj fneg_inj)
  show ?thesis
    unfolding k report_rows_total[OF assms] by (rule sort_key_stable)
qed

lemma add_key_fold:
  "fold add_key xs ks = ks @ filter (\<lambda>x. x \<notin> set ks) (first_appearances xs)"
proof (induction xs arbitrary: ks)
  case Nil
  then show ?case by simp
next
  case (Cons x xs)
  show ?case
  proof (cases "x \<in> set ks")
    case True
    have "filter (\<lambda>y. y \<notin> set ks) (filter (\<lambda>y. y \<noteq> x) (first_appearances xs)) =
          filter (\<lambda>y. y \<notin> set ks) (first_appearances xs)"
      using True by (auto intro: filter_cong)
    then show ?thesis
      using True Cons.IH[of ks] by (simp add: add_key_def)
  next
    case False
    have "filter (\<lambda>y. y \<notin> set (ks @ [x])) (first_appearances xs) =
          filter (\<lambda>y. y \<notin> set ks) (filter (\<lambda>y. y \<noteq> x) (first_appearances xs))"
      by (auto intro: filter_cong)
    then show ?thesis
      using False Cons.IH[of "ks @ [x]"] by (simp add: add_key_def)
  qed
qed

lemma keys_update: "map fst (AList.update k v al) = add_key k (map fst al)"
  by (simp add: update_keys add_key_def)

lemma fold_responses_keys:
  "fold_responses str_of ts rs = Inr ts' \<Longrightarrow>
   map fst ts' = fold add_key (map (fst \<circ> snd) (matches_of str_of rs)) (map fst ts)"
proof (induction rs arbitrary: ts)
  case Nil
  then show ?case by (simp add: matches_of_def map_filter_simps)
next
  case (Cons x rs)
  obtain start resp where x: "x = (start, resp)"
    by (cases x)
  show ?case
  proof (cases "fold_response str_of ts start resp")
    case (Inl e)
    then show ?thesis using Cons.prems unfolding x by simp
  next
    case (Inr ts1)
    then have rest: "fold_responses str_of ts1 rs = Inr ts'"
      using Cons.prems unfolding x by simp
    note ih = Cons.IH[OF rest]
    show ?thesis
      using Inr ih unfolding x
      by (auto simp: fold_response_cases matches_of_def map_filter_simps keys_update
          split: sum.splits option.splits)
  qed
qed


lemma py_max_not_nan: "a \<noteq> NaN \<Longrightarrow> b \<noteq> NaN \<Longrightarrow> py_max a b \<noteq> NaN"
  by (simp add: py_max_def)

lemma list_all_update: "list_all P al \<Longrightarrow> P (k, v) \<Longrightarrow> list_all P (AList.update k v al)"
  by (induction al) auto

lemma fold_response_nan_free:
  assumes "fold_response str_of ts start resp = Inr ts1"
    and "list_all (\<lambda>kv. confidence_max (snd kv) \<noteq> NaN) ts"
    and "\<And>tid a ti raw. extract_match str_of resp = Inr (Some (tid, a, ti, raw)) \<Longrightarrow> raw \<noteq> Some NaN"
  shows "list_all (\<lambda>kv. confidence_max (snd kv) \<noteq> NaN) ts1"
proof (cases "extract_match str_of resp")
  case (Inl e)
  then show ?thesis
    using assms(1) by (simp add: fold_response_cases)
next
  case (Inr mo)
  show ?thesis
  proof (cases mo)
    case None
    then show ?thesis
      using assms(1,2) Inr by (simp add: fold_response_cases)
  next
    case (Some q)
    obtain tid a ti raw where q: "q = (tid, a, ti, raw)"
      by (cases q)
    have raw: "raw \<noteq> Some NaN"
      using assms(3) Inr Some q by simp
    have old: "confidence_max agg \<noteq> NaN" if "map_of ts tid = Some agg" for agg
      using assms(2) map_of_SomeD[OF that] by (auto simp: list_all_iff)
    have new: "confidence_max (spec_derived (case map_of ts tid of
                 None \<Rightarrow> spec_first_sight start tid a ti raw
               | Some agg \<Rightarrow> spec_later_sight agg start raw)) \<noteq> NaN"
      using raw old
      by (auto simp: spec_derived_def spec_first_sight_def spec_later_sight_def py_min_fin
          py_max_def split: option.splits if_splits)
    show ?thesis
      using assms(1,2) Inr Some q new
      by (auto simp: fold_response_cases intro!: list_all_update)
  qed
qed

lemma fold_responses_nan_free:
  "fold_responses str_of ts rs = Inr ts' \<Longrightarrow> nan_free str_of rs \<Longrightarrow>
   list_all (\<lambda>kv. confidence_max (snd kv) \<noteq> NaN) ts \<Longrightarrow>
   list_all (\<lambda>kv. confidence_max (snd kv) \<noteq> NaN) ts'"
proof (induction rs arbitrary: ts)
  case Nil
  then show ?case by simp
next
  case (Cons x rs)
  obtain start resp where x: "x = (start, resp)"
    by (cases x)
  obtain ts1 where one: "fold_response str_of ts start resp = Inr ts1"
    and rest: "fold_responses str_of ts1 rs = Inr ts'"
    using Cons.prems(1) unfolding x by (auto split: sum.splits)
  have nf: "nan_free str_of rs"
    and raw: "\<And>tid a ti raw. extract_match str_of resp = Inr (Some (tid, a, ti, raw)) \<Longrightarrow> raw \<noteq> Some NaN"
    using Cons.prems(2) unfolding x nan_free_def
    by (auto simp: matches_of_Cons split: sum.splits option.splits)
  have "list_all (\<lambda>kv. confidence_max (snd kv) \<noteq> NaN) ts1"
    using one Cons.prems(3) raw by (rule fold_response_nan_free)
  then show ?case
    using Cons.IH[OF rest nf] by simp
qed

lemma ranking_example:
  "map fst (report_rows other
      [sample_agg ''T1'' (Fin 1) 3, sample_agg ''T2'' (Fin (9 / 10)) 1, sample_agg ''T3'' (Fin 1) 2]) =
   [''T1'', ''T3'', ''T2'']"
proof -
  have "list_all (\<lambda>kv. confidence_max (snd kv) \<noteq> NaN)
      [sample_agg ''T1'' (Fin 1) 3, sample_agg ''T2'' (Fin (9 / 10)) 1, sample_agg ''T3'' (Fin 1) 2]"
    by (simp add: sample_agg_def)
  then have "report_rows other
      [sample_agg ''T1'' (Fin 1) 3, sample_agg ''T2'' (Fin (9 / 10)) 1, sample_agg ''T3'' (Fin 1) 2] =
     sort_key total_key
      [sample_agg ''T1'' (Fin 1) 3, sample_agg ''T2'' (Fin (9 / 10)) 1, sample_agg ''T3'' (Fin 1) 2]"
    by (rule report_rows_total)
  then show ?thesis
    by (simp add: sample_agg_def total_key_def rank_key_def less_eq_prod_def)
qed

text \<open>
  Claim C6 (amended). When no aggregate has the confidence NaN (as is the case when no
  result of the stream carries a NaN confidence), the rows of the report are sorted by
  maximal confidence descending, then by support descending; rows that tie keep the order of
  the table, which is the order in which the tracks first appeared in the stream of results.
  The aggregates T1 (confidence 1, support 3), T2 (0.9, 1) and T3 (1, 2) are reported in the
  order T1, T3, T2.
\<close>

theorem report_rows_ranked:
  "list_all (\<lambda>kv. confidence_max (snd kv) \<noteq> NaN) ts \<Longrightarrow>
   sorted_wrt ranks_before (map snd (report_rows other ts)) \<and>
   mset (report_rows other ts) = mset ts \<and>
   (\<forall>c n. filter (\<lambda>kv. confidence_max (snd kv) = c \<and> support (snd kv) = n) (report_rows other ts) =
          filter (\<lambda>kv. confidence_max (snd kv) = c \<and> support (snd kv) = n) ts) \<and>
   (fold_responses str_of [] rs = Inr ts' \<longrightarrow>
      map fst ts' = first_appearances (map (fst \<circ> snd) (matches_of str_of rs))) \<and>
   (fold_responses str_of [] rs = Inr ts' \<and> nan_free str_of rs \<longrightarrow>
      list_all (\<lambda>kv. confidence_max (snd kv) \<noteq> NaN) ts') \<and>
   map fst (report_rows other
      [sample_agg ''T1'' (Fin 1) 3, sample_agg ''T2'' (Fin (9 / 10)) 1, sample_agg ''T3'' (Fin 1) 2]) =
     [''T1'', ''T3'', ''T2'']"
proof -
  assume n: "list_all (\<lambda>kv. confidence_max (snd kv) \<noteq> NaN) ts"
  have keys: "fold_responses str_of [] rs = Inr ts' \<longrightarrow>
      map fst ts' = first_appearances (map (fst \<circ> snd) (matches_of str_of rs))"
    using fold_responses_keys[of str_of "[]" rs ts'] by (simp add: add_key_fold)
  have clean: "fold_responses str_of [] rs = Inr ts' \<and> nan_free str_of rs \<longrightarrow>
      list_all (\<lambda>kv. confidence_max (snd kv) \<noteq> NaN) ts'"
    using fold_responses_nan_free[of str_of "[]" rs ts'] by simp
  have perm: "mset (report_rows other ts) = mset ts"
    by (simp add: report_rows_total[OF n])
  show ?thesis
    using report_rows_sorted[OF n] perm report_rows_stable[OF n] keys clean ranking_example
    by blast
qed

theorem report_rows_ranked_witness:
  "sorted_wrt ranks_before
     (map snd (report_rows (\<lambda>rows. rows)
        [sample_agg ''T2'' (Fin (2 / 3)) 2, sample_agg ''T1'' (Fin (9 / 10)) 1])) \<and>
   map_sum id (map fst)
     (fold_responses str_of_text []
        [(0, sighting ''T2''), (20, sighting_with ''T1'' (Fin (9 / 10))), (40, sighting ''T2'')]) =
   Inr [''T2'', ''T1'']"
proof -
  let ?rs = "[(0, sighting ''T2''), (20, sighting_with ''T1'' (Fin (9 / 10))), (40, sighting ''T2'')]"
  let ?ts = "[sample_agg ''T2'' (Fin (2 / 3)) 2, sample_agg ''T1'' (Fin (9 / 10)) 1]"
  have n: "list_all (\<lambda>kv. confidence_max (snd kv) \<noteq> NaN) ?ts"
    by (simp add: sample_agg_def)
  obtain ts' where r: "fold_responses str_of_text [] ?rs = Inr ts'"
    by (simp add: fold_response_cases extract_match_sighting extract_match_sighting_with
        del: in_percent_range.simps)
  note t = report_rows_ranked[OF n, of "\<lambda>rows. rows" str_of_text ?rs ts']
  have "map fst ts' = first_appearances (map (fst \<circ> snd) (matches_of str_of_text ?rs))"
    using t r by blast
  then have "map fst ts' = [''T2'', ''T1'']"
    by (simp add: matches_of_Cons matches_of_Nil extract_match_sighting extract_match_sighting_with
        del: in_percent_range.simps)
  then show ?thesis
    using t r by simp
qed

text \<open>Claim C6 as first stated fails: no comparison with a NaN key is true, so the rows with
  the confidences 0.5, NaN and 0.9 already form a run for Python's sort and are reported in
  that order, 0.5 before 0.9.\<close>

theorem nan_confidence_is_not_ranked:
  "map_sum id (\<lambda>ts. map (\<lambda>kv. (fst kv, confidence_max (snd kv))) (report_rows (list_sort quiet_world) ts))
     (fold_responses str_of_text []
        [(0, sighting_with ''T1'' (Fin (1 / 2))), (20, sighting_with ''T2'' NaN),
         (40, sighting_with ''T3'' (Fin (9 / 10)))]) =
   Inr [(''T1'', Fin (1 / 2)), (''T2'', NaN), (''T3'', Fin (9 / 10))] \<and>
   \<not> sorted_wrt ranks_before
        (map snd (report_rows (list_sort quiet_world)
           [sample_agg ''T1'' (Fin (1 / 2)) 1, sample_agg ''T2'' NaN 1, sample_agg ''T3'' (Fin (9 / 10)) 1]))"
  by (simp add: fold_response_cases extract_match_sighting_with percent_half
      spec_derived_def spec_first_sight_def py_max_def py_min_def
      report_rows_def key_lt_def rank_key_def feq_def sample_agg_def ranks_before_def
      del: in_percent_range.simps)

section \<open>Runs of the pipeline\<close>

lemma chunks_10: "build_chunks 10 30 10 = [(0, 10)]"
  by (simp add: build_chunks_def build_chunks_loop.simps chunk_step_def)

lemma chunks_70: "build_chunks 70 30 10 = [(0, 30), (20, 30), (40, 30), (60, 10)]"
  by (simp add: build_chunks_def build_chunks_loop.simps chunk_step_def)

lemma fmt2_vals: "fmt2 0 = 0" "fmt2 10 = 1000" "fmt2 20 = 2000" "fmt2 30 = 3000"
  by (simp_all add: fmt2_def)

lemma run_batches_Nil: "run_batches w h sr st [] = Inr st"
  by (simp add: run_batches.simps)

lemma run_tasks_append:
  "run_tasks w h sr st (xs @ ys) =
     (case run_tasks w h sr st xs of Inl e \<Rightarrow> Inl e | Inr st' \<Rightarrow> run_tasks w h sr st' ys)"
  by (induction xs arbitrary: st) (auto split: sum.splits)

lemma run_batches_sequential: "run_batches w h sr st coros = run_tasks w h sr st coros"
proof (induction w h sr st coros rule: run_batches.induct)
  case (1 w h sr st coros)
  show ?case
  proof (cases "coros = []")
    case True
    then show ?thesis by (simp add: run_batches.simps)
  next
    case False
    have split: "run_tasks w h sr st coros =
        (case run_tasks w h sr st (take 40 coros) of
           Inl e \<Rightarrow> Inl e
         | Inr st' \<Rightarrow> run_tasks w h sr st' (drop 40 coros))"
      using run_tasks_append[of w h sr st "take 40 coros" "drop 40 coros"] by simp
    show ?thesis
      using False "1.IH" unfolding split
      by (subst run_batches.simps) (auto split: sum.splits)
  qed
qed

lemma extract_match_nothing: "extract_match str_of JNull = Inr None"
  by (simp add: extract_match_def)

lemmas run_eval =
  run_pipeline_def enumerate_simps run_batches_sequential process_one_def chunk_key_of_def
  fmt2_vals lookup_chunk_def get_chunk_def put_chunk_def recognize_file_def finish_chunk_def
  fold_response_def extract_match_nothing Let_def report_rows_def

lemma quiet_first_run:
  "run_pipeline quiet_world ''h'' (\<lambda>key. None) 30 10 16000 =
     Inr \<lparr>report = [], final_cache = [(''h'', 0, 1000, 16000) \<mapsto> None],
          calls = [(''h'', 0, 1000, 16000)]\<rparr>"
  by (simp add: quiet_world_def chunks_10 run_eval)

lemma quiet_second_run:
  "run_pipeline quiet_world ''h'' [(''h'', 0, 1000, 16000) \<mapsto> None] 30 10 16000 =
     Inr \<lparr>report = [], final_cache = [(''h'', 0, 1000, 16000) \<mapsto> None],
          calls = [(''h'', 0, 1000, 16000)]\<rparr>"
  by (simp add: quiet_world_def chunks_10 run_eval)

text \<open>
  Claim C1 says that a second run over the same source and parameters issues no call of the
  recognizer, the chunks cached as no match included. On a source of one window for which the
  recognizer finds nothing, the first run stores the row with a NULL payload and the second
  run submits the same chunk again.
\<close>

theorem no_match_is_resubmitted:
  "map_sum id calls (run_twice quiet_world ''h'' (\<lambda>key. None) 30 10 16000) = Inr [(''h'', 0, 1000, 16000)]"
  by (simp add: run_twice_def quiet_first_run quiet_second_run)

text \<open>
  Claim C2 says that \<^verbatim>\<open>get_chunk\<close> tells a key never written from a key written with a no
  match payload. After \<^verbatim>\<open>put_chunk\<close> of no match the row is there with a NULL payload, and
  \<^verbatim>\<open>get_chunk\<close> returns \<^verbatim>\<open>None\<close> for it as it does for a key without a row.
\<close>

theorem no_match_reads_as_absent:
  "get_chunk quiet_world (\<lambda>key. None) (''h'', 0, 1000, 16000) = Inr JNull \<and>
   map_sum id (\<lambda>db. (db (''h'', 0, 1000, 16000), get_chunk quiet_world db (''h'', 0, 1000, 16000)))
     (put_chunk quiet_world (\<lambda>key. None) (''h'', 0, 1000, 16000) JNull) =
   Inr (Some None, Inr JNull)"
  by (simp add: get_chunk_def put_chunk_def quiet_world_def)

lemma run_tasks_abort:
  "run_tasks w h sr st pre = Inr st1 \<Longrightarrow> process_one w h sr st1 task = Inl e \<Longrightarrow>
   run_tasks w h sr st (pre @ task # post) = Inl e"
  by (simp add: run_tasks_append)

lemma run_pipeline_abort:
  "ffprobe w = Returns duration \<Longrightarrow>
   List.enumerate 0 (build_chunks duration cs ov) = pre @ task # post \<Longrightarrow>
   run_tasks w h sr \<lparr>cache = db, tracks = [], oracle_calls = []\<rparr> pre = Inr st \<Longrightarrow>
   process_one w h sr st task = Inl e \<Longrightarrow>
   run_pipeline w h db cs ov sr = Inl e"
  by (simp add: run_pipeline_def run_batches_sequential run_tasks_abort)

lemma process_one_ffmpeg:
  "get_chunk w (cache st) (chunk_key_of h start dur sr) = Inr JNull \<Longrightarrow>
   ffmpeg_fails w idx start dur \<Longrightarrow>
   process_one w h sr st (idx, start, dur) = Inl RuntimeError"
  by (simp add: process_one_def lookup_chunk_def)

lemma process_one_select:
  "select_fails w (chunk_key_of h start dur sr) \<Longrightarrow>
   process_one w h sr st (idx, start, dur) = Inl SqliteError"
  by (simp add: process_one_def lookup_chunk_def get_chunk_def)

lemma process_one_insert:
  "get_chunk w (cache st) (chunk_key_of h start dur sr) = Inr JNull \<Longrightarrow>
   \<not> ffmpeg_fails w idx start dur \<Longrightarrow>
   insert_fails w (chunk_key_of h start dur sr) \<Longrightarrow>
   process_one w h sr st (idx, start, dur) = Inl SqliteError"
  by (simp add: process_one_def lookup_chunk_def put_chunk_def Let_def)

text \<open>
  Claim C3 (amended). If the windows before a window are processed without error, the
  window misses the cache and the extraction of its clip fails, then \<^verbatim>\<open>process_one\<close> raises
  \<^verbatim>\<open>RuntimeError\<close>, nothing catches it, and the run ends with that exception and without a
  report.
\<close>

theorem materialization_failure_aborts:
  "ffprobe w = Returns duration \<Longrightarrow>
   List.enumerate 0 (build_chunks duration chunk_seconds overlap_seconds) = pre @ (idx, start, dur) # post \<Longrightarrow>
   run_tasks w src_hash sample_rate \<lparr>cache = db, tracks = [], oracle_calls = []\<rparr> pre = Inr st \<Longrightarrow>
   get_chunk w (cache st) (chunk_key_of src_hash start dur sample_rate) = Inr JNull \<Longrightarrow>
   ffmpeg_fails w idx start dur \<Longrightarrow>
   process_one w src_hash sample_rate st (idx, start, dur) = Inl RuntimeError \<and>
   run_pipeline w src_hash db chunk_seconds overlap_seconds sample_rate = Inl RuntimeError"
  using process_one_ffmpeg run_pipeline_abort by blast

text \<open>
  Claim C4 (amended). A storage error is fatal to the run: if the windows before a window
  are processed without error and SQLite raises in \<^verbatim>\<open>get_chunk\<close> for its key, or in
  \<^verbatim>\<open>put_chunk\<close> after its miss, then \<^verbatim>\<open>process_one\<close> raises that error and the run does not
  complete.
\<close>

theorem storage_failure_aborts:
  "ffprobe w = Returns duration \<Longrightarrow>
   List.enumerate 0 (build_chunks duration chunk_seconds overlap_seconds) = pre @ (idx, start, dur) # post \<Longrightarrow>
   run_tasks w src_hash sample_rate \<lparr>cache = db, tracks = [], oracle_calls = []\<rparr> pre = Inr st \<Longrightarrow>
   select_fails w (chunk_key_of src_hash start dur sample_rate) \<or>
     (get_chunk w (cache st) (chunk_key_of src_hash start dur sample_rate) = Inr JNull \<and>
      \<not> ffmpeg_fails w idx start dur \<and>
      insert_fails w (chunk_key_of src_hash start dur sample_rate)) \<Longrightarrow>
   process_one w src_hash sample_rate st (idx, start, dur) = Inl SqliteError \<and>
   \<not> completes (run_pipeline w src_hash db chunk_seconds overlap_seconds sample_rate)"
proof -
  assume p: "ffprobe w = Returns duration"
    and c: "List.enumerate 0 (build_chunks duration chunk_seconds overlap_seconds) = pre @ (idx, start, dur) # post"
    and r: "run_tasks w src_hash sample_rate \<lparr>cache = db, tracks = [], oracle_calls = []\<rparr> pre = Inr st"
    and f: "select_fails w (chunk_key_of src_hash start dur sample_rate) \<or>
     (get_chunk w (cache st) (chunk_key_of src_hash start dur sample_rate) = Inr JNull \<and>
      \<not> ffmpeg_fails w idx start dur \<and>
      insert_fails w (chunk_key_of src_hash start dur sample_rate))"
  have one: "process_one w src_hash sample_rate st (idx, start, dur) = Inl SqliteError"
    using f process_one_select process_one_insert by blast
  have "run_pipeline w src_hash db chunk_seconds overlap_seconds sample_rate = Inl SqliteError"
    by (rule run_pipeline_abort[OF p c r one])
  then show ?thesis
    using one by (simp add: completes_def)
qed

text \<open>Claim C3 as first stated fails: on a source of four windows where only the clip of the
  second window cannot be extracted, the run raises instead of completing with a report.\<close>

theorem one_failed_slice_ends_the_run:
  "run_pipeline ffmpeg_fails_once ''h'' (\<lambda>key. None) 30 10 16000 = Inl RuntimeError"
  by (simp add: ffmpeg_fails_once_def long_world_def quiet_world_def chunks_70 run_eval)

text \<open>Claim C4 as first stated fails: a failing SELECT is not treated as a cache miss and a
  failing INSERT is not swallowed; either ends the run with the error.\<close>

theorem storage_error_ends_the_run:
  "run_pipeline sqlite_select_fails ''h'' (\<lambda>key. None) 30 10 16000 = Inl SqliteError \<and>
   run_pipeline sqlite_insert_fails ''h'' (\<lambda>key. None) 30 10 16000 = Inl SqliteError"
  by (simp add: sqlite_select_fails_def sqlite_insert_fails_def quiet_world_def chunks_10 run_eval)

theorem materialization_failure_aborts_witness:
  "ffmpeg_fails ffmpeg_fails_once 1 20 30 \<and>
   run_pipeline ffmpeg_fails_once ''h'' [(''h'', 0, 3000, 16000) \<mapsto> Some (sighting ''T1'')] 30 10 16000 =
     Inl RuntimeError"
proof -
  let ?db = "[(''h'', 0, 3000, 16000) \<mapsto> Some (sighting ''T1'')]"
  have w: "ffprobe ffmpeg_fails_once = Returns 70" "py_str ffmpeg_fails_once = str_of_text"
    "ffmpeg_fails ffmpeg_fails_once 1 20 30" "\<not> select_fails ffmpeg_fails_once k" for k
    by (simp_all add: ffmpeg_fails_once_def long_world_def quiet_world_def)
  have c: "List.enumerate 0 (build_chunks 70 30 10) = [(0, 0, 30)] @ (1, 20, 30) # [(2, 40, 30), (3, 60, 10)]"
    by (simp add: chunks_70 enumerate_simps)
  have hit: "sighting ''T1'' \<noteq> JNull"
    by (simp add: sighting_def)
  have "\<exists>st. run_tasks ffmpeg_fails_once ''h'' 16000 \<lparr>cache = ?db, tracks = [], oracle_calls = []\<rparr> [(0, 0, 30)] = Inr st
          \<and> cache st = ?db"
    by (simp add: process_one_def chunk_key_of_def fmt2_vals lookup_chunk_def get_chunk_def w hit
        finish_chunk_def fold_response_cases extract_match_sighting)
  then obtain st where r: "run_tasks ffmpeg_fails_once ''h'' 16000 \<lparr>cache = ?db, tracks = [], oracle_calls = []\<rparr> [(0, 0, 30)] = Inr st"
    and cs: "cache st = ?db"
    by blast
  have g: "get_chunk ffmpeg_fails_once (cache st) (chunk_key_of ''h'' 20 30 16000) = Inr JNull"
    by (simp add: cs get_chunk_def w chunk_key_of_def fmt2_vals)
  show ?thesis
    using materialization_failure_aborts[OF w(1) c r g w(3)] w(3) by simp
qed

theorem storage_failure_aborts_witness:
  "insert_fails sqlite_insert_fails (chunk_key_of ''h'' 0 10 16000) \<and>
   process_one sqlite_insert_fails ''h'' 16000 \<lparr>cache = (\<lambda>key. None), tracks = [], oracle_calls = []\<rparr> (0, 0, 10) =
     Inl SqliteError \<and>
   \<not> completes (run_pipeline sqlite_insert_fails ''h'' (\<lambda>key. None) 30 10 16000)"
proof -
  have w: "ffprobe sqlite_insert_fails = Returns 10" "insert_fails sqlite_insert_fails k"
    "\<not> ffmpeg_fails sqlite_insert_fails 0 0 10" "\<not> select_fails sqlite_insert_fails k" for k
    by (simp_all add: sqlite_insert_fails_def quiet_world_def)
  have c: "List.enumerate 0 (build_chunks 10 30 10) = [] @ (0, 0, 10) # []"
    by (simp add: chunks_10 enumerate_simps)
  have r: "run_tasks sqlite_insert_fails ''h'' 16000 \<lparr>cache = (\<lambda>key. None), tracks = [], oracle_calls = []\<rparr> [] =
     Inr \<lparr>cache = (\<lambda>key. None), tracks = [], oracle_calls = []\<rparr>"
    by simp
  have g: "get_chunk sqlite_insert_fails (cache \<lparr>cache = (\<lambda>key. None), tracks = [], oracle_calls = []\<rparr>)
      (chunk_key_of ''h'' 0 10 16000) = Inr JNull"
    by (simp add: get_chunk_def w)
  have f: "select_fails sqlite_insert_fails (chunk_key_of ''h'' 0 10 16000) \<or>
     (get_chunk sqlite_insert_fails (cache \<lparr>cache = (\<lambda>key. None), tracks = [], oracle_calls = []\<rparr>)
        (chunk_key_of ''h'' 0 10 16000) = Inr JNull \<and>
      \<not> ffmpeg_fails sqlite_insert_fails 0 0 10 \<and>
      insert_fails sqlite_insert_fails (chunk_key_of ''h'' 0 10 16000))"
    using g w by simp
  show ?thesis
    using storage_failure_aborts[OF w(1) c r f] w(2) by simp
qed

section \<open>The semaphore\<close>

lemma calling_update:
  "i < length ps \<Longrightarrow>
   calling (ps[i := p]) + (if ps ! i = Calling then 1 else 0) =
   calling ps + (if p = Calling then 1 else 0)"
proof (induction ps arbitrary: i)
  case Nil
  then show ?case by simp
next
  case (Cons q ps)
  show ?case
  proof (cases i)
    case 0
    then show ?thesis by (simp add: calling_def)
  next
    case (Suc j)
    then have "j < length ps"
      using Cons.prems by simp
    from Cons.IH[OF this] show ?thesis
      using Suc by (auto simp: calling_def split: if_splits)
  qed
qed

lemma calling_le: "calling ps \<le> length ps"
  by (simp add: calling_def)

lemma calling_pos: "i < length ps \<Longrightarrow> ps ! i = Calling \<Longrightarrow> 0 < calling ps"
  by (auto simp: calling_def filter_empty_conv in_set_conv_nth)


lemma set_phase_simps:
  "phases (set_phase i p s) = (phases s)[i := p]"
  "permits (set_phase i p s) = permits s"
  "shared (set_phase i p s) = shared s"
  by (simp_all add: set_phase_def)

lemma start_task_balanced:
  assumes "i < length (phases s)" "phases s ! i = Pending" "balanced limit s"
  shows "balanced limit (start_task w h sr i task s) \<and>
         permits (start_task w h sr i task s) = permits s \<and>
         length (phases (start_task w h sr i task s)) = length (phases s)"
proof -
  have c: "calling ((phases s)[i := p]) = calling (phases s)" if "p \<noteq> Calling" for p
    using calling_update[OF assms(1), of p] assms(2) that by simp
  show ?thesis
    using assms(3)
    by (auto simp: start_task_def balanced_def set_phase_simps c
        split: prod.splits sum.splits lookup.splits)
qed

lemma acquire_task_balanced:
  assumes "i < length (phases s)" "phases s ! i = Waiting" "0 < permits s" "balanced limit s"
  shows "balanced limit (acquire_task h sr i task s) \<and>
         length (phases (acquire_task h sr i task s)) = length (phases s)"
proof -
  have c: "calling ((phases s)[i := Calling]) = calling (phases s) + 1"
    using calling_update[OF assms(1), of Calling] assms(2) by simp
  show ?thesis
    using assms(3,4)
    by (auto simp: acquire_task_def balanced_def set_phase_simps c split: prod.splits)
qed

lemma complete_task_balanced:
  assumes "i < length (phases s)" "phases s ! i = Calling" "balanced limit s"
  shows "balanced limit (complete_task w h sr i task s) \<and>
         length (phases (complete_task w h sr i task s)) = length (phases s)"
proof -
  have c: "calling ((phases s)[i := p]) + 1 = calling (phases s)" if "p \<noteq> Calling" for p
    using calling_update[OF assms(1), of p] assms(2) that by simp
  have f: "calling ((phases s)[i := Failed e]) + 1 = calling (phases s)" for e
    by (rule c) simp
  have g: "calling ((phases s)[i := Finished]) + 1 = calling (phases s)"
    by (rule c) simp
  show ?thesis
    using assms(3) f g
    by (auto simp: complete_task_def balanced_def set_phase_simps Let_def
        split: prod.splits sum.splits)
qed

lemma cancel_task_balanced:
  assumes "i < length (phases s)" "cancel_task i s = Some s'" "balanced limit s"
  shows "balanced limit s' \<and> length (phases s') = length (phases s)"
proof -
  have c: "calling ((phases s)[i := Cancelled]) + (if phases s ! i = Calling then 1 else 0) = calling (phases s)"
    using calling_update[OF assms(1), of Cancelled] by simp
  show ?thesis
    using assms(2,3) c
    by (auto simp: cancel_task_def balanced_def set_phase_simps split: phase.splits)
qed

lemma task_event_balanced:
  "task_event w h sr coros ev s = Some s' \<Longrightarrow> balanced limit s \<Longrightarrow>
   balanced limit s' \<and> length (phases s') = length (phases s)"
proof (cases ev)
  case (Start i)
  assume "task_event w h sr coros ev s = Some s'" "balanced limit s"
  then show ?thesis
    using Start start_task_balanced[of i s limit w h sr "coros ! i"]
    by (auto split: if_splits)
next
  case (Acquire i)
  assume "task_event w h sr coros ev s = Some s'" "balanced limit s"
  then show ?thesis
    using Acquire acquire_task_balanced[of i s limit h sr "coros ! i"]
    by (auto split: if_splits)
next
  case (Complete i)
  assume "task_event w h sr coros ev s = Some s'" "balanced limit s"
  then show ?thesis
    using Complete complete_task_balanced[of i s limit w h sr "coros ! i"]
    by (auto split: if_splits)
next
  case (Cancel i)
  assume "task_event w h sr coros ev s = Some s'" "balanced limit s"
  then show ?thesis
    using Cancel cancel_task_balanced[of i s s' limit]
    by (auto split: if_splits)
qed

lemma run_events_balanced:
  "run_events w h sr coros evs s = Some s' \<Longrightarrow> balanced limit s \<Longrightarrow> balanced limit s'"
proof (induction evs arbitrary: s)
  case Nil
  then show ?case by simp
next
  case (Cons ev evs)
  then obtain s1 where e: "task_event w h sr coros ev s = Some s1"
    and r: "run_events w h sr coros evs s1 = Some s'"
    by (auto split: option.splits)
  have "balanced limit s1"
    using task_event_balanced[OF e Cons.prems(2)] by simp
  then show ?case
    using Cons.IH[OF r] by simp
qed

lemma initial_balanced: "balanced limit (initial_sched limit db n)"
  by (simp add: balanced_def initial_sched_def calling_def)

lemma start_ignores_permits:
  "map_option phases (task_event w h sr coros (Start i) (s\<lparr>permits := p\<rparr>)) =
   map_option phases (task_event w h sr coros (Start i) s)"
  by (auto simp: start_task_def set_phase_def split: prod.splits sum.splits lookup.splits)

lemma start_keeps_permits:
  "task_event w h sr coros (Start i) s = Some s' \<Longrightarrow> permits s' = permits s"
  by (auto simp: start_task_def set_phase_def split: if_splits prod.splits sum.splits lookup.splits)


text \<open>
  Claim C8. In every state a run can reach, under any interleaving of its tasks and for
  every size of the semaphore (so for every limit of at least one), the number of
  outstanding calls of the recognizer is at most the limit, and the permits taken are exactly
  those of the outstanding calls: the cache lookup and the extraction of the clip happen
  before \<^verbatim>\<open>async with sem\<close>, so starting a task neither needs nor takes a permit.
\<close>

theorem oracle_calls_bounded:
  "run_events w src_hash sample_rate coros evs (initial_sched max_parallel db (length coros)) = Some s \<Longrightarrow>
   calling (phases s) \<le> max_parallel \<and>
   permits s + calling (phases s) = max_parallel \<and>
   (\<forall>i s'. task_event w src_hash sample_rate coros (Start i) s = Some s' \<longrightarrow> permits s' = permits s) \<and>
   (\<forall>i p. map_option phases (task_event w src_hash sample_rate coros (Start i) (s\<lparr>permits := p\<rparr>)) =
          map_option phases (task_event w src_hash sample_rate coros (Start i) s))"
proof -
  assume r: "run_events w src_hash sample_rate coros evs (initial_sched max_parallel db (length coros)) = Some s"
  have "balanced max_parallel s"
    using run_events_balanced[OF r initial_balanced] .
  then have b: "permits s + calling (phases s) = max_parallel"
    by (simp add: balanced_def)
  then have "calling (phases s) \<le> max_parallel"
    by simp
  then show ?thesis
    using b start_keeps_permits start_ignores_permits by blast
qed

lemma chunks_70': "List.enumerate 0 (build_chunks 70 30 10) = [(0, 0, 30), (1, 20, 30), (2, 40, 30), (3, 60, 10)]"
  by (simp add: chunks_70 enumerate_simps)

lemma rep4: "replicate 4 Pending = [Pending, Pending, Pending, Pending]"
  by (simp add: numeral_eq_Suc)

theorem oracle_calls_bounded_witness:
  "\<exists>s. run_events long_world ''h'' 16000 (List.enumerate 0 (build_chunks 70 30 10))
          [Start 0, Acquire 0, Start 1, Start 2] (initial_sched 1 (\<lambda>key. None) 4) = Some s \<and>
        phases s = [Calling, Waiting, Waiting, Pending] \<and> permits s = 0 \<and>
        calling (phases s) \<le> 1 \<and>
        task_event long_world ''h'' 16000 (List.enumerate 0 (build_chunks 70 30 10)) (Acquire 1) s = None"
proof -
  let ?coros = "List.enumerate 0 (build_chunks 70 30 10)"
  have w: "\<not> select_fails long_world k" "\<not> ffmpeg_fails long_world i a b" for k i a b
    by (simp_all add: long_world_def quiet_world_def)
  have "\<exists>s. run_events long_world ''h'' 16000 ?coros
          [Start 0, Acquire 0, Start 1, Start 2] (initial_sched 1 (\<lambda>key. None) 4) = Some s \<and>
        phases s = [Calling, Waiting, Waiting, Pending] \<and> permits s = 0"
    by (simp add: chunks_70' initial_sched_def batch_open_def start_task_def acquire_task_def
        set_phase_def lookup_chunk_def get_chunk_def w rep4)
  then obtain s where r: "run_events long_world ''h'' 16000 ?coros
          [Start 0, Acquire 0, Start 1, Start 2] (initial_sched 1 (\<lambda>key. None) 4) = Some s"
    and p: "phases s = [Calling, Waiting, Waiting, Pending]" "permits s = 0"
    by blast
  have l: "length ?coros = 4"
    by (simp add: chunks_70')
  have r': "run_events long_world ''h'' 16000 ?coros
          [Start 0, Acquire 0, Start 1, Start 2] (initial_sched 1 (\<lambda>key. None) (length ?coros)) = Some s"
    unfolding l by (rule r)
  have "calling (phases s) \<le> 1"
    using oracle_calls_bounded[OF r'] by blast
  moreover have "task_event long_world ''h'' 16000 ?coros (Acquire 1) s = None"
    by (simp add: p)
  ultimately show ?thesis
    using r p by blast
qed

text \<open>\<^verbatim>\<open>process_one\<close> run without interruption is one of the schedules of the events.\<close>

lemma process_one_schedule:
  assumes i: "i < length coros" "i < length (phases s)" "phases s ! i = Pending" "batch_open (phases s) i"
    and a: "0 < permits s"
    and p: "process_one w h sr (shared s) (coros ! i) = Inr st'"
  shows "\<exists>evs. run_events w h sr coros evs s = Some (s\<lparr>phases := (phases s)[i := Finished], shared := st'\<rparr>)"
proof -
  obtain idx start dur where t: "coros ! i = (idx, start, dur)"
    by (cases "coros ! i")
  let ?key = "chunk_key_of h start dur sr"
  show ?thesis
  proof (cases "lookup_chunk w (cache (shared s)) ?key idx start dur")
    case (Inl e)
    then show ?thesis
      using p t by (simp add: process_one_def)
  next
    case (Inr l)
    show ?thesis
    proof (cases l)
      case (Hit resp)
      then have f: "finish_chunk w (shared s) start resp = Inr st'"
        using p t Inr by (simp add: process_one_def)
      have "run_events w h sr coros [Start i] s = Some (s\<lparr>phases := (phases s)[i := Finished], shared := st'\<rparr>)"
        using i t Inr Hit f by (simp add: start_task_def set_phase_def)
      then show ?thesis by blast
    next
      case Miss
      let ?resp = "recognize_file (shazam w idx start dur)"
      let ?st1 = "(shared s)\<lparr>oracle_calls := oracle_calls (shared s) @ [?key]\<rparr>"
      obtain db where pc: "put_chunk w (cache (shared s)) ?key ?resp = Inr db"
        and f: "finish_chunk w (?st1\<lparr>cache := db\<rparr>) start ?resp = Inr st'"
        using p t Inr Miss by (auto simp: process_one_def Let_def split: sum.splits)
      have nth: "(phases s)[i := q] ! i = q" for q
        using i(2) by simp
      have "run_events w h sr coros [Start i, Acquire i, Complete i] s =
              Some (s\<lparr>phases := (phases s)[i := Finished], shared := st'\<rparr>)"
        using i a t Inr Miss pc f
        by (simp add: start_task_def acquire_task_def complete_task_def set_phase_def Let_def nth)
      then show ?thesis by blast
    qed
  qed
qed

end
